theory Spec2Isabelle
  imports Complex_Main "HOL-Library.AList"
begin

section \<open>The schema validation compiler\<close>

text \<open>
  The schema package turns a descriptor (built by the combinators \<open>string\<close>,
  \<open>object\<close>, \<open>array\<close>, \<open>union\<close>, \<open>lazy\<close>, ...) into a validator function:
  \<open>emit\<close> walks the descriptor and produces the text of a JavaScript function body,
  \<open>build\<close> turns that text into a function object with \<open>new Function\<close>, and
  \<open>compile\<close> caches the function per descriptor object.

  The embedding keeps that pipeline.  The emitted text is represented by its syntax
  tree (\<open>stmt\<close>): every template string of \<open>emit\<close> is one constructor application,
  and \<open>exec\<close> gives the tree the meaning JavaScript gives the text.  Descriptors,
  validated data and function objects have identity in JavaScript, so each lives in a
  table indexed by an address.
\<close>

subsection \<open>JavaScript values and the object heap\<close>

text \<open>
  Numbers are the finite rationals (every finite double is one) with \<open>NaN\<close> and the
  two infinities.  Objects and arrays are heap cells; a value refers to them by
  address.  An object cell keeps its own properties in enumeration order.
\<close>

datatype jsnum = Fin rat | NaN | PInf | NInf

type_synonym addr = nat

datatype jsval =
    VUndef
  | VNull
  | VBool bool
  | VNum jsnum
  | VBigint int
  | VStr string
  | VRef addr

datatype hobj =
    HArr "jsval list"
  | HObj "(string \<times> jsval) list"

type_synonym heap = "hobj list"

text \<open>What \<open>throw\<close> carries: an \<open>Error\<close> with its message, the \<open>TypeError\<close> of a
  property access on \<open>null\<close> or \<open>undefined\<close>, or any value a user callback throws.\<close>

datatype exn = Error string | TypeError | ThrownVal jsval

definition is_int :: "rat \<Rightarrow> bool" where
  "is_int q = (of_int \<lfloor>q\<rfloor> = q)"

fun isFinite :: "jsval \<Rightarrow> bool" where
  "isFinite (VNum (Fin q)) = True"
| "isFinite _ = False"

fun isInteger :: "jsval \<Rightarrow> bool" where
  "isInteger (VNum (Fin q)) = is_int q"
| "isInteger _ = False"

fun isArray :: "heap \<Rightarrow> jsval \<Rightarrow> bool" where
  "isArray h (VRef a) = (a < length h \<and> (case h ! a of HArr xs \<Rightarrow> True | HObj kvs \<Rightarrow> False))"
| "isArray h _ = False"

fun typeof :: "jsval \<Rightarrow> string" where
  "typeof VUndef = ''undefined''"
| "typeof VNull = ''object''"
| "typeof (VBool b) = ''boolean''"
| "typeof (VNum x) = ''number''"
| "typeof (VBigint i) = ''bigint''"
| "typeof (VStr s) = ''string''"
| "typeof (VRef a) = ''object''"

fun truthy :: "jsval \<Rightarrow> bool" where
  "truthy VUndef = False"
| "truthy VNull = False"
| "truthy (VBool b) = b"
| "truthy (VNum (Fin q)) = (q \<noteq> 0)"
| "truthy (VNum NaN) = False"
| "truthy (VNum x) = True"
| "truthy (VBigint i) = (i \<noteq> 0)"
| "truthy (VStr s) = (s \<noteq> [])"
| "truthy (VRef a) = True"

subsection \<open>Decimal rendering and string escaping\<close>

definition digit :: "nat \<Rightarrow> char" where
  "digit n = ''0123456789'' ! n"

fun show_nat :: "nat \<Rightarrow> string" where
  "show_nat n = (if n < 10 then [digit n] else show_nat (n div 10) @ [digit (n mod 10)])"

declare show_nat.simps [simp del]

definition show_int :: "int \<Rightarrow> string" where
  "show_int i = (if i < 0 then CHR ''-'' # show_nat (nat (- i)) else show_nat (nat i))"

text \<open>
  \<open>String.prototype.replaceAll\<close> with a one-character pattern, and \<open>esc\<close> as the
  source chains it.  A \<open>char\<close> is one byte, so the two replacements of U+2028 and
  U+2029 have nothing to match in this model and are left out.
\<close>

definition replaceAll :: "char \<Rightarrow> string \<Rightarrow> string \<Rightarrow> string" where
  "replaceAll c r s = concat (map (\<lambda>x. if x = c then r else [x]) s)"

definition esc :: "string \<Rightarrow> string" where
  "esc s =
     replaceAll (CHR 0x0D) [CHR 0x5C, CHR ''r'']
       (replaceAll (CHR 0x0A) [CHR 0x5C, CHR ''n'']
         (replaceAll (CHR 0x27) [CHR 0x5C, CHR 0x27]
           (replaceAll (CHR 0x5C) [CHR 0x5C, CHR 0x5C] s)))"

text \<open>
  The value of a single-quoted string literal whose source text is \<open>s\<close>: a backslash
  takes the next character, \<open>\n\<close> and \<open>\r\<close> are the two line ends.  These are the only
  escapes \<open>esc\<close> writes.
\<close>

fun unesc :: "string \<Rightarrow> string" where
  "unesc [] = []"
| "unesc [c] = [c]"
| "unesc (c # d # cs) =
     (if c = CHR 0x5C
      then (if d = CHR ''n'' then CHR 0x0A else if d = CHR ''r'' then CHR 0x0D else d) # unesc cs
      else c # unesc (d # cs))"

subsection \<open>Descriptors\<close>

text \<open>
  A descriptor is a JavaScript object \<open>{ _tag, ...fields }\<close>; \<open>did\<close> is its identity
  and the descriptor table gives the node behind an identity.  Fields that hold
  descriptors hold identities, so that a \<open>lazy\<close> thunk can refer back to a descriptor
  that contains it.  A thunk is modelled by the descriptor it returns.  A literal is
  \<open>string | number | boolean | null\<close>; numeric literals are the integers, whose
  \<open>JSON.stringify\<close> and template rendering are the decimal digits.  The tag is one
  of those the combinators write, so the final \<open>Unknown schema tag\<close> throw of
  \<open>emit\<close> has no descriptor to fire on.

  User callbacks (\<open>fn\<close> of \<open>transform\<close>, \<open>refine\<close>, \<open>preprocess\<close>) receive the heap
  and the argument and give back a result or a thrown value, and the heap they leave.
\<close>

type_synonym did = nat

datatype lit = LNull | LBool bool | LNum int | LStr string

type_synonym ufn = "heap \<Rightarrow> jsval \<Rightarrow> (exn + jsval) \<times> heap"

datatype schema =
    SString
  | SBoolean
  | SNumber
  | SInteger
  | SBigint
  | SLiteral lit
  | SOneOf "lit list"
  | SMaybe did
  | SArray did
  | SObject "(string \<times> did) list"
  | STuple "did list"
  | SRecord did
  | SUnion "did list"
  | STransform did ufn
  | SLazy did
  | SRefine did ufn "string option"
  | SPreprocess did ufn

type_synonym descs = "did \<Rightarrow> schema"

fun show_lit :: "lit \<Rightarrow> string" where
  "show_lit LNull = ''null''"
| "show_lit (LBool b) = (if b then ''true'' else ''false'')"
| "show_lit (LNum i) = show_int i"
| "show_lit (LStr s) = s"

text \<open>\<open>Array.prototype.join\<close> of strings.\<close>

fun join :: "string \<Rightarrow> string list \<Rightarrow> string" where
  "join sep [] = []"
| "join sep [x] = x"
| "join sep (x # y # ys) = x @ sep @ join sep (y # ys)"

text \<open>The \<open>TYPEOF_TAGS\<close> table: the \<open>typeof\<close> of the values a primitive tag accepts.\<close>

fun TYPEOF_TAGS :: "schema \<Rightarrow> string option" where
  "TYPEOF_TAGS SString = Some ''string''"
| "TYPEOF_TAGS SBoolean = Some ''boolean''"
| "TYPEOF_TAGS SNumber = Some ''number''"
| "TYPEOF_TAGS SInteger = Some ''number''"
| "TYPEOF_TAGS SBigint = Some ''bigint''"
| "TYPEOF_TAGS _ = None"

subsection \<open>The emitted code\<close>

text \<open>
  A value slot is the expression text \<open>e\<close> that \<open>emit\<close> threads through:
  \<open>input\<close>, \<open>e[i3]\<close> or \<open>e[k3]\<close> (a loop variable), \<open>e["key"]\<close>, \<open>e[2]\<close>.
  Loop variables, labels and snapshots are named by the counter \<open>c.n\<close>.
\<close>

datatype var = IVar nat | KVar nat

datatype slot =
    Input
  | AtVar slot var
  | AtKey slot string
  | AtPos slot nat

text \<open>
  A string expression is a \<open>+\<close> chain of single-quoted literals (kept as their source
  text) and loop variables.  \<open>PathVal\<close> is \<open>{ s }\<close>, a static path that is still
  plain text, or \<open>{ d }\<close>, the text of such a chain.
\<close>

datatype piece = PLit string | PVar var

datatype PathVal = PS string | PD "piece list"

datatype cond =
    TypeofNe slot string
  | NotFinite slot
  | NotInteger slot
  | NeLit slot lit
  | NeNull slot
  | EqNull slot
  | NotIsArray slot
  | IsArray slot
  | LengthNe slot nat
  | KeyIn string slot
  | Or cond cond

datatype scrut = ScVal slot | ScTypeof slot

datatype arg = ArgSlot slot | ArgSnap nat

datatype stmt =
    SEmpty
  | SThrow "piece list"
  | SIf cond stmt
  | SIfElse cond stmt stmt
  | SIfNotCall nat slot stmt
  | SSetUndef slot
  | SSetCall slot nat arg
  | SFor nat slot stmt
  | SForIn nat slot stmt
  | SSwitch scrut "(lit list \<times> stmt) list" stmt
  | SSeq stmt stmt
  | SVarErrSnap nat nat slot
  | SDo nat stmt
  | STryCatch stmt
  | SBreak nat
  | SThrowErr

text \<open>
  The constructors stand for these texts (\<open>e\<close> a slot, \<open>c\<close> a condition):
  \<^item> \<open>SThrow ps\<close>: \<open>throw new Error(ps)\<close>;
  \<^item> \<open>SIf c s\<close>: \<open>if(c)s\<close> or \<open>if(c){s}\<close>; \<open>SIfElse c s t\<close>: \<open>if(c){s}else{t}\<close>;
  \<^item> \<open>SIfNotCall i e s\<close>: \<open>if(!v[i](e))s\<close>;
  \<^item> \<open>SSetUndef e\<close>: \<open>e=undefined\<close>; \<open>SSetCall e i a\<close>: \<open>e=v[i](a)\<close>;
  \<^item> \<open>SFor n e s\<close>: \<open>for(let in=0;in<e.length;in++){s}\<close>;
  \<^item> \<open>SForIn n e s\<close>: \<open>for(const kn in e){s}\<close>;
  \<^item> \<open>SSwitch x [(ls, s), ...] t\<close>: \<open>switch(x){case l1:case l2:s;break;...;default:t}\<close>;
  \<^item> \<open>SSeq s t\<close>: \<open>s;t\<close>;
  \<^item> \<open>SVarErrSnap n i e\<close>: \<open>var err,_sn=v[i](e)\<close>;
  \<^item> \<open>SDo n s\<close>: \<open>_un:do{s}while(0)\<close>; \<open>SBreak n\<close>: \<open>break _un\<close>;
  \<^item> \<open>STryCatch s\<close>: \<open>try{s}catch(_e){err=_e}\<close>;
  \<^item> \<open>SThrowErr\<close>: \<open>throw err??new Error('union failed')\<close>.
\<close>

fun join_seq :: "stmt list \<Rightarrow> stmt" where
  "join_seq [] = SEmpty"
| "join_seq [s] = s"
| "join_seq (s # t # ts) = SSeq s (join_seq (t # ts))"

fun throwCode :: "PathVal \<Rightarrow> string \<Rightarrow> stmt" where
  "throwCode (PS s) msg =
     (let m = esc msg; prefix = (if s \<noteq> [] then s @ '': '' else [])
      in SThrow [PLit (prefix @ m)])"
| "throwCode (PD d) msg = (let m = esc msg in SThrow (d @ [PLit ('': '' @ m)]))"

fun appendKey :: "PathVal \<Rightarrow> string \<Rightarrow> PathVal" where
  "appendKey (PS s) key = (let k = esc key in PS (if s \<noteq> [] then s @ ''.'' @ k else k))"
| "appendKey (PD d) key = (let k = esc key in PD (d @ [PLit (''.'' @ k)]))"

fun appendIndex :: "PathVal \<Rightarrow> var \<Rightarrow> PathVal" where
  "appendIndex (PS s) indexVar =
     PD (if s \<noteq> [] then [PLit (esc s @ ''[''), PVar indexVar, PLit '']'']
         else [PLit ''['', PVar indexVar, PLit '']''])"
| "appendIndex (PD d) indexVar = PD (d @ [PLit ''['', PVar indexVar, PLit '']''])"

fun appendTupleIndex :: "PathVal \<Rightarrow> nat \<Rightarrow> PathVal" where
  "appendTupleIndex (PS s) idx = PS (s @ ''['' @ show_nat idx @ '']'')"
| "appendTupleIndex (PD d) idx = PD (d @ [PLit (''['' @ show_nat idx @ '']'')])"

subsection \<open>Function objects, the cache and the building set\<close>

text \<open>
  A function object is a compiled validator, \<open>function(input){body;return input}\<close>
  closed over its context array \<open>v\<close>, or a trampoline closed over its descriptor and
  its variable \<open>compiled\<close>.  A context entry is a compiled function or trampoline
  (by identity), a user callback, or \<open>structuredClone\<close>.  The world holds what the
  module and the caller share: the object heap, the function objects, \<open>_cache\<close> and
  \<open>_building\<close>.
\<close>

type_synonym fid = nat

datatype cval = CFn fid | CUser ufn | CClone

datatype fn = Compiled stmt "cval list" | Trampoline did "fid option"

record world =
  heap :: heap
  funs :: "fn list"
  cache :: "did \<rightharpoonup> fid"
  building :: "did set"

subsection \<open>emit, build and compile\<close>

text \<open>The first loop of the \<open>union\<close> case: \<open>typeofMap\<close>, in insertion order, or
  \<open>None\<close> when \<open>canDiscriminate\<close> ends false.\<close>

fun typeofMap :: "descs \<Rightarrow> did list \<Rightarrow> (string \<times> did) list \<Rightarrow> (string \<times> did) list option" where
  "typeofMap D [] acc = Some acc"
| "typeofMap D (variant # vs) acc =
     (case TYPEOF_TAGS (D variant) of
        None \<Rightarrow> None
      | Some tag \<Rightarrow>
          if tag \<in> fst ` set acc then None
          else typeofMap D vs (acc @ [(tag, variant)]))"

fun typeofBody :: "schema \<Rightarrow> slot \<Rightarrow> PathVal \<Rightarrow> stmt" where
  "typeofBody SNumber e p = SIf (NotFinite e) (throwCode p ''expected finite number'')"
| "typeofBody SInteger e p = SIf (NotInteger e) (throwCode p ''expected integer'')"
| "typeofBody _ e p = SEmpty"

text \<open>The search for a discriminant key: \<open>discMap\<close> for one key of the first
  shape, and the loop over those keys.\<close>

fun discMap :: "descs \<Rightarrow> string \<Rightarrow> did list \<Rightarrow> (lit \<times> did) list \<Rightarrow> (lit \<times> did) list option" where
  "discMap D key [] acc = Some acc"
| "discMap D key (variant # vs) acc =
     (case D variant of
        SObject shape \<Rightarrow>
          (case map_of shape key of
             None \<Rightarrow> None
           | Some field \<Rightarrow>
               (case D field of
                  SLiteral val \<Rightarrow>
                    if val \<in> fst ` set acc then None
                    else discMap D key vs (acc @ [(val, variant)])
                | _ \<Rightarrow> None))
      | _ \<Rightarrow> None)"

fun findDisc :: "descs \<Rightarrow> string list \<Rightarrow> did list \<Rightarrow> (string \<times> (lit \<times> did) list) option" where
  "findDisc D [] variants = None"
| "findDisc D (key # keys) variants =
     (case discMap D key variants [] of
        Some m \<Rightarrow> Some (key, m)
      | None \<Rightarrow> findDisc D keys variants)"

fun isObjectTag :: "schema \<Rightarrow> bool" where
  "isObjectTag (SObject shape) = True"
| "isObjectTag _ = False"

fun isMaybeTag :: "schema \<Rightarrow> bool" where
  "isMaybeTag (SMaybe i) = True"
| "isMaybeTag _ = False"

fun shapeOf :: "schema \<Rightarrow> (string \<times> did) list" where
  "shapeOf (SObject shape) = shape"
| "shapeOf _ = []"

definition objectCheck :: "slot \<Rightarrow> cond" where
  "objectCheck e = Or (Or (TypeofNe e ''object'') (EqNull e)) (IsArray e)"

text \<open>One attempt of the fallback union:
  \<open>e=v[cloneIdx](snap);try{e=v[i](e);break label}catch(_e){err=_e}\<close>.\<close>

definition tryCode :: "slot \<Rightarrow> nat \<Rightarrow> nat \<Rightarrow> nat \<Rightarrow> nat \<Rightarrow> stmt" where
  "tryCode e cloneIdx snap label i =
     SSeq (SSetCall e cloneIdx (ArgSnap snap))
          (STryCatch (SSeq (SSetCall e i (ArgSlot e)) (SBreak label)))"

text \<open>
  The three strategies of the \<open>union\<close> case, chosen from the variants alone:
  the \<open>typeof\<close> switch when the first loop leaves \<open>canDiscriminate\<close> true, the
  switch on a discriminant key when every variant is an object and a key of the
  first shape is pinned to distinct literals by all of them, the ordered try
  otherwise.
\<close>

datatype strategy =
    ByTypeof "(string \<times> did) list"
  | ByKey string "(lit \<times> did) list"
  | Fallback

definition unionStrategy :: "descs \<Rightarrow> did list \<Rightarrow> strategy" where
  "unionStrategy D variants =
     (case typeofMap D variants [] of
        Some tm \<Rightarrow> ByTypeof tm
      | None \<Rightarrow>
          (if list_all (\<lambda>v. isObjectTag (D v)) variants then
             (case findDisc D (map fst (shapeOf (D (hd variants)))) variants of
                Some (key, dm) \<Rightarrow> ByKey key dm
              | None \<Rightarrow> Fallback)
           else Fallback))"

text \<open>The texts the cases of \<open>emit\<close> return, given the emitted parts.\<close>

definition maybeCode :: "slot \<Rightarrow> stmt \<Rightarrow> stmt" where
  "maybeCode e inner =
     (if inner \<noteq> SEmpty then SIfElse (NeNull e) inner (SSetUndef e)
      else SIf (EqNull e) (SSetUndef e))"

definition arrayCode :: "PathVal \<Rightarrow> slot \<Rightarrow> nat \<Rightarrow> stmt \<Rightarrow> stmt" where
  "arrayCode p e n inner =
     SSeq (SIf (NotIsArray e) (throwCode p ''expected array'')) (SFor n e inner)"

definition objectCode :: "PathVal \<Rightarrow> slot \<Rightarrow> stmt list \<Rightarrow> stmt" where
  "objectCode p e parts =
     join_seq (SIf (objectCheck e) (throwCode p ''expected object'') # parts)"

definition tupleCode :: "PathVal \<Rightarrow> slot \<Rightarrow> nat \<Rightarrow> stmt list \<Rightarrow> stmt" where
  "tupleCode p e len parts =
     join_seq (SIf (Or (NotIsArray e) (LengthNe e len))
                 (throwCode p (''expected tuple of length '' @ show_nat len)) # parts)"

definition recordCode :: "PathVal \<Rightarrow> slot \<Rightarrow> nat \<Rightarrow> stmt \<Rightarrow> stmt" where
  "recordCode p e n inner =
     SSeq (SIf (objectCheck e) (throwCode p ''expected object'')) (SForIn n e inner)"

definition typeofCode :: "descs \<Rightarrow> PathVal \<Rightarrow> slot \<Rightarrow> (string \<times> did) list \<Rightarrow> stmt" where
  "typeofCode D p e tm =
     SSwitch (ScTypeof e)
       (map (\<lambda>(tag, variant). ([LStr tag], typeofBody (D variant) e p)) tm)
       (throwCode p ''union failed'')"

definition keyCode :: "PathVal \<Rightarrow> slot \<Rightarrow> string \<Rightarrow> (lit list \<times> stmt) list \<Rightarrow> stmt" where
  "keyCode p e key cases =
     SSeq (SIf (objectCheck e) (throwCode p ''expected object''))
          (SSwitch (ScVal (AtKey e key)) cases (throwCode p ''union failed''))"

definition fallbackCode :: "slot \<Rightarrow> nat \<Rightarrow> nat \<Rightarrow> nat list \<Rightarrow> stmt" where
  "fallbackCode e c cloneIdx fns =
     (let label = c; snap = c + 1;
          tries = map (tryCode e cloneIdx snap label) fns
      in SSeq (SVarErrSnap snap cloneIdx e) (SDo label (SSeq (join_seq tries) SThrowErr)))"

definition refineCode :: "PathVal \<Rightarrow> slot \<Rightarrow> nat \<Rightarrow> string option \<Rightarrow> stmt \<Rightarrow> stmt" where
  "refineCode p e idx message inner =
     (let msg = (case message of None \<Rightarrow> ''refinement failed'' | Some m \<Rightarrow> m)
      in SSeq inner (SIfNotCall idx e (throwCode p msg)))"

text \<open>
  The loops of \<open>emit\<close>.  Each takes the recursive call it makes as its first
  argument (\<open>em\<close> for \<open>emit\<close>, \<open>bld\<close> for \<open>build\<close>), threads the context array
  \<open>ctx\<close> and the counter \<open>c.n\<close> through the iterations and hands both back:
  \<open>emit_fields\<close> is the loop over \<open>Object.keys(shape)\<close> (in the discriminated union
  it skips the discriminant), \<open>emit_items\<close> the loop over tuple positions,
  \<open>emit_cases\<close> the loop over \<open>discMap\<close>, \<open>build_variants\<close> the loop that pushes
  \<open>build(variant)\<close>.
\<close>

type_synonym 'a emitted = "('a \<times> cval list \<times> nat \<times> world) option"

type_synonym emitter = "did \<Rightarrow> slot \<Rightarrow> cval list \<Rightarrow> nat \<Rightarrow> PathVal \<Rightarrow> world \<Rightarrow> stmt emitted"

fun emit_fields :: "emitter \<Rightarrow> descs \<Rightarrow> slot \<Rightarrow> PathVal \<Rightarrow> string option \<Rightarrow> (string \<times> did) list
              \<Rightarrow> cval list \<Rightarrow> nat \<Rightarrow> world \<Rightarrow> (stmt list) emitted" where
  "emit_fields em D e p skip [] ctx c w = Some ([], ctx, c, w)"
| "emit_fields em D e p skip ((key, fd) # rest) ctx c w =
     (if skip = Some key then emit_fields em D e p skip rest ctx c w
      else
        (case em fd (AtKey e key) ctx c (appendKey p key) w of
           None \<Rightarrow> None
         | Some (s, ctx1, c1, w1) \<Rightarrow>
             (case emit_fields em D e p skip rest ctx1 c1 w1 of
                None \<Rightarrow> None
              | Some (parts, ctx2, c2, w2) \<Rightarrow>
                  Some ((if isMaybeTag (D fd) then SIf (KeyIn key e) s else s) # parts,
                        ctx2, c2, w2))))"

fun emit_items :: "emitter \<Rightarrow> slot \<Rightarrow> PathVal \<Rightarrow> nat \<Rightarrow> did list
              \<Rightarrow> cval list \<Rightarrow> nat \<Rightarrow> world \<Rightarrow> (stmt list) emitted" where
  "emit_items em e p i [] ctx c w = Some ([], ctx, c, w)"
| "emit_items em e p i (item # rest) ctx c w =
     (case em item (AtPos e i) ctx c (appendTupleIndex p i) w of
        None \<Rightarrow> None
      | Some (s, ctx1, c1, w1) \<Rightarrow>
          (case emit_items em e p (i + 1) rest ctx1 c1 w1 of
             None \<Rightarrow> None
           | Some (parts, ctx2, c2, w2) \<Rightarrow> Some (s # parts, ctx2, c2, w2)))"

fun emit_cases :: "emitter \<Rightarrow> descs \<Rightarrow> slot \<Rightarrow> PathVal \<Rightarrow> string \<Rightarrow> (lit \<times> did) list
              \<Rightarrow> cval list \<Rightarrow> nat \<Rightarrow> world \<Rightarrow> ((lit list \<times> stmt) list) emitted" where
  "emit_cases em D e p key [] ctx c w = Some ([], ctx, c, w)"
| "emit_cases em D e p key ((val, variant) # rest) ctx c w =
     (case emit_fields em D e p (Some key) (shapeOf (D variant)) ctx c w of
        None \<Rightarrow> None
      | Some (parts, ctx1, c1, w1) \<Rightarrow>
          (case emit_cases em D e p key rest ctx1 c1 w1 of
             None \<Rightarrow> None
           | Some (cases, ctx2, c2, w2) \<Rightarrow> Some (([val], join_seq parts) # cases, ctx2, c2, w2)))"

fun build_variants :: "(did \<Rightarrow> world \<Rightarrow> (fid \<times> world) option) \<Rightarrow> did list \<Rightarrow> cval list \<Rightarrow> world
              \<Rightarrow> (nat list \<times> cval list \<times> world) option" where
  "build_variants bld [] ctx w = Some ([], ctx, w)"
| "build_variants bld (variant # rest) ctx w =
     (case bld variant w of
        None \<Rightarrow> None
      | Some (g, w1) \<Rightarrow>
          (case build_variants bld rest (ctx @ [CFn g]) w1 of
             None \<Rightarrow> None
           | Some (fns, ctx', w') \<Rightarrow> Some (length ctx # fns, ctx', w')))"

text \<open>
  \<open>emit\<close> and \<open>build\<close> call each other (the fallback union and \<open>lazy\<close> build
  sub-validators), and nothing in the source bounds the descent: the first argument is
  the depth left on the call stack, and \<open>None\<close> is the descent that never returns.
  \<open>emit\<close> reads the node of the descriptor and \<open>emit_tag\<close> is its
  \<open>switch (d._tag)\<close>.  The two \<open>new Function\<close> calls of \<open>build\<close> differ only in
  whether the text names \<open>v\<close>; both give the function \<open>Compiled body ctx\<close>.
\<close>

function (sequential)
      emit :: "nat \<Rightarrow> descs \<Rightarrow> did \<Rightarrow> slot \<Rightarrow> cval list \<Rightarrow> nat \<Rightarrow> PathVal \<Rightarrow> world \<Rightarrow> stmt emitted"
  and emit_tag :: "nat \<Rightarrow> descs \<Rightarrow> schema \<Rightarrow> slot \<Rightarrow> cval list \<Rightarrow> nat \<Rightarrow> PathVal \<Rightarrow> world
              \<Rightarrow> stmt emitted"
  and build :: "nat \<Rightarrow> descs \<Rightarrow> did \<Rightarrow> world \<Rightarrow> (fid \<times> world) option"
where
  "emit 0 D d e ctx c p w = None"
| "emit (Suc k) D d e ctx c p w = emit_tag k D (D d) e ctx c p w"
| "emit_tag 0 D t e ctx c p w = None"
| "emit_tag (Suc k) D SString e ctx c p w =
     Some (SIf (TypeofNe e ''string'') (throwCode p ''expected string''), ctx, c, w)"
| "emit_tag (Suc k) D SBoolean e ctx c p w =
     Some (SIf (TypeofNe e ''boolean'') (throwCode p ''expected boolean''), ctx, c, w)"
| "emit_tag (Suc k) D SNumber e ctx c p w =
     Some (SIf (Or (TypeofNe e ''number'') (NotFinite e))
             (throwCode p ''expected finite number''), ctx, c, w)"
| "emit_tag (Suc k) D SInteger e ctx c p w =
     Some (SIf (Or (TypeofNe e ''number'') (NotInteger e))
             (throwCode p ''expected integer''), ctx, c, w)"
| "emit_tag (Suc k) D SBigint e ctx c p w =
     Some (SIf (TypeofNe e ''bigint'') (throwCode p ''expected bigint''), ctx, c, w)"
| "emit_tag (Suc k) D (SLiteral val) e ctx c p w =
     Some (SIf (NeLit e val) (throwCode p (''expected '' @ show_lit val)), ctx, c, w)"
| "emit_tag (Suc k) D (SOneOf values) e ctx c p w =
     Some (SSwitch (ScVal e) [(values, SEmpty)]
             (throwCode p (''expected one of: '' @ join '', '' (map show_lit values))),
           ctx, c, w)"
| "emit_tag (Suc k) D (SMaybe i) e ctx c p w =
     (case emit k D i e ctx c p w of
        None \<Rightarrow> None
      | Some (inner, ctx', c', w') \<Rightarrow> Some (maybeCode e inner, ctx', c', w'))"
| "emit_tag (Suc k) D (SArray item) e ctx c p w =
     (case emit k D item (AtVar e (IVar c)) ctx (c + 1) (appendIndex p (IVar c)) w of
        None \<Rightarrow> None
      | Some (inner, ctx', c', w') \<Rightarrow> Some (arrayCode p e c inner, ctx', c', w'))"
| "emit_tag (Suc k) D (SObject shape) e ctx c p w =
     (case emit_fields (emit k D) D e p None shape ctx c w of
        None \<Rightarrow> None
      | Some (parts, ctx', c', w') \<Rightarrow> Some (objectCode p e parts, ctx', c', w'))"
| "emit_tag (Suc k) D (STuple items) e ctx c p w =
     (case emit_items (emit k D) e p 0 items ctx c w of
        None \<Rightarrow> None
      | Some (parts, ctx', c', w') \<Rightarrow> Some (tupleCode p e (length items) parts, ctx', c', w'))"
| "emit_tag (Suc k) D (SRecord val) e ctx c p w =
     (case emit k D val (AtVar e (KVar c)) ctx (c + 1) (appendIndex p (KVar c)) w of
        None \<Rightarrow> None
      | Some (inner, ctx', c', w') \<Rightarrow> Some (recordCode p e c inner, ctx', c', w'))"
| "emit_tag (Suc k) D (SUnion variants) e ctx c p w =
     (case unionStrategy D variants of
        ByTypeof tm \<Rightarrow> Some (typeofCode D p e tm, ctx, c, w)
      | ByKey key dm \<Rightarrow>
          (case emit_cases (emit k D) D e p key dm ctx c w of
             None \<Rightarrow> None
           | Some (cases, ctx', c', w') \<Rightarrow> Some (keyCode p e key cases, ctx', c', w'))
      | Fallback \<Rightarrow>
          (case build_variants (build k D) variants ctx w of
             None \<Rightarrow> None
           | Some (fns, ctx', w') \<Rightarrow>
               Some (fallbackCode e c (length ctx') fns, ctx' @ [CClone], c + 2, w')))"
| "emit_tag (Suc k) D (STransform i f) e ctx c p w =
     (case emit k D i e ctx c p w of
        None \<Rightarrow> None
      | Some (inner, ctx', c', w') \<Rightarrow>
          Some (SSeq inner (SSetCall e (length ctx') (ArgSlot e)), ctx' @ [CUser f], c', w'))"
| "emit_tag (Suc k) D (SLazy thunk) e ctx c p w =
     (case build k D thunk w of
        None \<Rightarrow> None
      | Some (g, w') \<Rightarrow> Some (SSetCall e (length ctx) (ArgSlot e), ctx @ [CFn g], c, w'))"
| "emit_tag (Suc k) D (SRefine i f message) e ctx c p w =
     (case emit k D i e ctx c p w of
        None \<Rightarrow> None
      | Some (inner, ctx', c', w') \<Rightarrow>
          Some (refineCode p e (length ctx') message inner, ctx' @ [CUser f], c', w'))"
| "emit_tag (Suc k) D (SPreprocess i f) e ctx c p w =
     (case emit k D i e (ctx @ [CUser f]) c p w of
        None \<Rightarrow> None
      | Some (inner, ctx', c', w') \<Rightarrow>
          Some (SSeq (SSetCall e (length ctx) (ArgSlot e)) inner, ctx', c', w'))"
| "build 0 D d w = None"
| "build (Suc k) D d w =
     (if d \<in> building w then
        Some (length (funs w), w\<lparr>funs := funs w @ [Trampoline d None]\<rparr>)
      else
        (case emit k D d Input [] 0 (PS []) (w\<lparr>building := insert d (building w)\<rparr>) of
           None \<Rightarrow> None
         | Some (body, ctx, c, w') \<Rightarrow>
             Some (length (funs w'),
                   w'\<lparr>funs := funs w' @ [Compiled body ctx], building := building w' - {d}\<rparr>)))"
  by pat_completeness auto

termination
  by (relation "measure (\<lambda>x. case x of Inl a \<Rightarrow> fst a | Inr (Inl b) \<Rightarrow> fst b | Inr (Inr c) \<Rightarrow> fst c)")
     auto

text \<open>\<open>compile\<close>: the cached function, or \<open>build\<close> and \<open>_cache.set\<close>.\<close>

definition compile :: "nat \<Rightarrow> descs \<Rightarrow> did \<Rightarrow> world \<Rightarrow> (fid \<times> world) option" where
  "compile k D desc w =
     (case cache w desc of
        Some g \<Rightarrow> Some (g, w)
      | None \<Rightarrow>
          (case build k D desc w of
             None \<Rightarrow> None
           | Some (g, w') \<Rightarrow> Some (g, w'\<lparr>cache := (cache w')(desc \<mapsto> g)\<rparr>)))"

subsection \<open>Running the emitted code\<close>

text \<open>
  Property reads and writes.  A cell holds own properties only: the names inherited
  from \<open>Object.prototype\<close> are not keys of this model.  An array cell holds its
  elements and its \<open>length\<close>.  Reading a property of \<open>null\<close> or \<open>undefined\<close>
  throws a \<open>TypeError\<close>; reading one of another primitive gives \<open>undefined\<close>
  (a string also has its \<open>length\<close> and its characters); the text built by
  \<open>new Function\<close> is sloppy-mode code, where writing a property of a primitive does
  nothing.
\<close>

definition arrayIndexOf :: "nat \<Rightarrow> string \<Rightarrow> nat option" where
  "arrayIndexOf len k = find (\<lambda>i. show_nat i = k) [0..<len]"

definition numOfNat :: "nat \<Rightarrow> jsval" where
  "numOfNat n = VNum (Fin (of_nat n))"

fun getIdx :: "heap \<Rightarrow> jsval \<Rightarrow> nat \<Rightarrow> exn + jsval" where
  "getIdx h VUndef i = Inl TypeError"
| "getIdx h VNull i = Inl TypeError"
| "getIdx h (VRef a) i =
     (if a < length h then
        (case h ! a of
           HArr xs \<Rightarrow> Inr (if i < length xs then xs ! i else VUndef)
         | HObj kvs \<Rightarrow> Inr (case map_of kvs (show_nat i) of Some v \<Rightarrow> v | None \<Rightarrow> VUndef))
      else Inr VUndef)"
| "getIdx h (VStr s) i = Inr (if i < length s then VStr [s ! i] else VUndef)"
| "getIdx h v i = Inr VUndef"

fun getProp :: "heap \<Rightarrow> jsval \<Rightarrow> string \<Rightarrow> exn + jsval" where
  "getProp h VUndef k = Inl TypeError"
| "getProp h VNull k = Inl TypeError"
| "getProp h (VRef a) k =
     (if a < length h then
        (case h ! a of
           HArr xs \<Rightarrow>
             Inr (if k = ''length'' then numOfNat (length xs)
                  else (case arrayIndexOf (length xs) k of Some i \<Rightarrow> xs ! i | None \<Rightarrow> VUndef))
         | HObj kvs \<Rightarrow> Inr (case map_of kvs k of Some v \<Rightarrow> v | None \<Rightarrow> VUndef))
      else Inr VUndef)"
| "getProp h (VStr s) k =
     Inr (if k = ''length'' then numOfNat (length s)
          else (case arrayIndexOf (length s) k of Some i \<Rightarrow> VStr [s ! i] | None \<Rightarrow> VUndef))"
| "getProp h v k = Inr VUndef"

fun setIdx :: "heap \<Rightarrow> jsval \<Rightarrow> nat \<Rightarrow> jsval \<Rightarrow> exn + heap" where
  "setIdx h VUndef i v = Inl TypeError"
| "setIdx h VNull i v = Inl TypeError"
| "setIdx h (VRef a) i v =
     (if a < length h then
        (case h ! a of
           HArr xs \<Rightarrow>
             Inr (h[a := HArr (if i < length xs then xs[i := v]
                               else xs @ replicate (i - length xs) VUndef @ [v])])
         | HObj kvs \<Rightarrow> Inr (h[a := HObj (AList.update (show_nat i) v kvs)]))
      else Inr h)"
| "setIdx h b i v = Inr h"

fun setProp :: "heap \<Rightarrow> jsval \<Rightarrow> string \<Rightarrow> jsval \<Rightarrow> exn + heap" where
  "setProp h VUndef k v = Inl TypeError"
| "setProp h VNull k v = Inl TypeError"
| "setProp h (VRef a) k v =
     (if a < length h then
        (case h ! a of
           HArr xs \<Rightarrow>
             (case arrayIndexOf (length xs) k of
                Some i \<Rightarrow> Inr (h[a := HArr (xs[i := v])])
              | None \<Rightarrow> Inr h)
         | HObj kvs \<Rightarrow> Inr (h[a := HObj (AList.update k v kvs)]))
      else Inr h)"
| "setProp h b k v = Inr h"

text \<open>\<open>"k" in e\<close>: a \<open>TypeError\<close> unless \<open>e\<close> is an object.\<close>

fun hasKey :: "heap \<Rightarrow> string \<Rightarrow> jsval \<Rightarrow> exn + bool" where
  "hasKey h k (VRef a) =
     (if a < length h then
        (case h ! a of
           HArr xs \<Rightarrow> Inr (k = ''length'' \<or> arrayIndexOf (length xs) k \<noteq> None)
         | HObj kvs \<Rightarrow> Inr (k \<in> fst ` set kvs))
      else Inr False)"
| "hasKey h k v = Inl TypeError"

text \<open>The keys a \<open>for...in\<close> visits, fixed when the loop starts.\<close>

fun forInKeys :: "heap \<Rightarrow> jsval \<Rightarrow> string list" where
  "forInKeys h (VRef a) =
     (if a < length h then
        (case h ! a of
           HArr xs \<Rightarrow> map show_nat [0..<length xs]
         | HObj kvs \<Rightarrow> map fst kvs)
      else [])"
| "forInKeys h (VStr s) = map show_nat [0..<length s]"
| "forInKeys h v = []"

text \<open>\<open>===\<close> against a literal of the text, and \<open>i < e.length\<close> for a loop counter.\<close>

fun strictEqLit :: "jsval \<Rightarrow> lit \<Rightarrow> bool" where
  "strictEqLit VNull LNull = True"
| "strictEqLit (VBool b) (LBool c) = (b = c)"
| "strictEqLit (VNum (Fin q)) (LNum i) = (q = of_int i)"
| "strictEqLit (VStr s) (LStr t) = (s = t)"
| "strictEqLit v l = False"

fun lessThan :: "nat \<Rightarrow> jsval \<Rightarrow> bool" where
  "lessThan i (VNum (Fin q)) = (of_nat i < q)"
| "lessThan i (VNum PInf) = True"
| "lessThan i v = False"

text \<open>
  The local variables of one call of a compiled function: \<open>input\<close>, the loop
  variables \<open>i<n>\<close> and \<open>k<n>\<close>, the snapshots \<open>_s<n>\<close>, and the one \<open>err\<close> that
  every \<open>var err\<close> of the body declares.
\<close>

record locals =
  l_input :: jsval
  l_ivar :: "nat \<Rightarrow> nat"
  l_kvar :: "nat \<Rightarrow> string"
  l_snap :: "nat \<Rightarrow> jsval"
  l_err :: "exn option"

definition init_locals :: "jsval \<Rightarrow> locals" where
  "init_locals x =
     \<lparr>l_input = x, l_ivar = (\<lambda>n. 0), l_kvar = (\<lambda>n. []), l_snap = (\<lambda>n. VUndef), l_err = None\<rparr>"

fun get_slot :: "locals \<Rightarrow> heap \<Rightarrow> slot \<Rightarrow> exn + jsval" where
  "get_slot l h Input = Inr (l_input l)"
| "get_slot l h (AtVar e (IVar n)) =
     (case get_slot l h e of Inl x \<Rightarrow> Inl x | Inr b \<Rightarrow> getIdx h b (l_ivar l n))"
| "get_slot l h (AtVar e (KVar n)) =
     (case get_slot l h e of Inl x \<Rightarrow> Inl x | Inr b \<Rightarrow> getProp h b (l_kvar l n))"
| "get_slot l h (AtKey e k) =
     (case get_slot l h e of Inl x \<Rightarrow> Inl x | Inr b \<Rightarrow> getProp h b k)"
| "get_slot l h (AtPos e i) =
     (case get_slot l h e of Inl x \<Rightarrow> Inl x | Inr b \<Rightarrow> getIdx h b i)"

text \<open>
  An assignment \<open>e=...\<close> evaluates the reference \<open>e\<close> (the base object and the key)
  before its right-hand side and stores into that reference afterwards.
\<close>

datatype lref = RootRef | KeyRef jsval string | IdxRef jsval nat

fun ref_slot :: "locals \<Rightarrow> heap \<Rightarrow> slot \<Rightarrow> exn + lref" where
  "ref_slot l h Input = Inr RootRef"
| "ref_slot l h (AtVar e (IVar n)) =
     (case get_slot l h e of Inl x \<Rightarrow> Inl x | Inr b \<Rightarrow> Inr (IdxRef b (l_ivar l n)))"
| "ref_slot l h (AtVar e (KVar n)) =
     (case get_slot l h e of Inl x \<Rightarrow> Inl x | Inr b \<Rightarrow> Inr (KeyRef b (l_kvar l n)))"
| "ref_slot l h (AtKey e k) =
     (case get_slot l h e of Inl x \<Rightarrow> Inl x | Inr b \<Rightarrow> Inr (KeyRef b k))"
| "ref_slot l h (AtPos e i) =
     (case get_slot l h e of Inl x \<Rightarrow> Inl x | Inr b \<Rightarrow> Inr (IdxRef b i))"

fun put_ref :: "locals \<Rightarrow> heap \<Rightarrow> lref \<Rightarrow> jsval \<Rightarrow> exn + (locals \<times> heap)" where
  "put_ref l h RootRef v = Inr (l\<lparr>l_input := v\<rparr>, h)"
| "put_ref l h (KeyRef b k) v =
     (case setProp h b k v of Inl x \<Rightarrow> Inl x | Inr h' \<Rightarrow> Inr (l, h'))"
| "put_ref l h (IdxRef b i) v =
     (case setIdx h b i v of Inl x \<Rightarrow> Inl x | Inr h' \<Rightarrow> Inr (l, h'))"

fun eval_cond :: "locals \<Rightarrow> heap \<Rightarrow> cond \<Rightarrow> exn + bool" where
  "eval_cond l h (TypeofNe e t) =
     (case get_slot l h e of Inl x \<Rightarrow> Inl x | Inr v \<Rightarrow> Inr (typeof v \<noteq> t))"
| "eval_cond l h (NotFinite e) =
     (case get_slot l h e of Inl x \<Rightarrow> Inl x | Inr v \<Rightarrow> Inr (\<not> isFinite v))"
| "eval_cond l h (NotInteger e) =
     (case get_slot l h e of Inl x \<Rightarrow> Inl x | Inr v \<Rightarrow> Inr (\<not> isInteger v))"
| "eval_cond l h (NeLit e val) =
     (case get_slot l h e of Inl x \<Rightarrow> Inl x | Inr v \<Rightarrow> Inr (\<not> strictEqLit v val))"
| "eval_cond l h (NeNull e) =
     (case get_slot l h e of Inl x \<Rightarrow> Inl x | Inr v \<Rightarrow> Inr (v \<noteq> VNull \<and> v \<noteq> VUndef))"
| "eval_cond l h (EqNull e) =
     (case get_slot l h e of Inl x \<Rightarrow> Inl x | Inr v \<Rightarrow> Inr (v = VNull))"
| "eval_cond l h (NotIsArray e) =
     (case get_slot l h e of Inl x \<Rightarrow> Inl x | Inr v \<Rightarrow> Inr (\<not> isArray h v))"
| "eval_cond l h (IsArray e) =
     (case get_slot l h e of Inl x \<Rightarrow> Inl x | Inr v \<Rightarrow> Inr (isArray h v))"
| "eval_cond l h (LengthNe e len) =
     (case get_slot l h e of
        Inl x \<Rightarrow> Inl x
      | Inr v \<Rightarrow>
          (case getProp h v ''length'' of
             Inl x \<Rightarrow> Inl x
           | Inr n \<Rightarrow> Inr (n \<noteq> numOfNat len)))"
| "eval_cond l h (KeyIn k e) =
     (case get_slot l h e of Inl x \<Rightarrow> Inl x | Inr v \<Rightarrow> hasKey h k v)"
| "eval_cond l h (Or a b) =
     (case eval_cond l h a of
        Inl x \<Rightarrow> Inl x
      | Inr True \<Rightarrow> Inr True
      | Inr False \<Rightarrow> eval_cond l h b)"

fun eval_piece :: "locals \<Rightarrow> piece \<Rightarrow> string" where
  "eval_piece l (PLit s) = unesc s"
| "eval_piece l (PVar (IVar n)) = show_nat (l_ivar l n)"
| "eval_piece l (PVar (KVar n)) = l_kvar l n"

definition eval_pieces :: "locals \<Rightarrow> piece list \<Rightarrow> string" where
  "eval_pieces l ps = concat (map (eval_piece l) ps)"

text \<open>
  \<open>structuredClone\<close>: a deep copy into fresh cells that keeps sharing and cycles;
  \<open>m\<close> maps the cells copied so far to their copies.  The copy of a cell is
  allocated before its children are copied, as the algorithm does, and filled in
  afterwards.  The first argument bounds the depth of the walk.
\<close>

type_synonym memo = "addr \<rightharpoonup> addr"

function (sequential)
      clone_val :: "nat \<Rightarrow> memo \<Rightarrow> heap \<Rightarrow> jsval \<Rightarrow> (jsval \<times> memo \<times> heap) option"
  and clone_vals :: "nat \<Rightarrow> memo \<Rightarrow> heap \<Rightarrow> jsval list \<Rightarrow> (jsval list \<times> memo \<times> heap) option"
where
  "clone_val 0 m h v = None"
| "clone_val (Suc k) m h (VRef a) =
     (case m a of
        Some a' \<Rightarrow> Some (VRef a', m, h)
      | None \<Rightarrow>
          (if a < length h then
             (case h ! a of
                HArr xs \<Rightarrow>
                  (case clone_vals k (m(a \<mapsto> length h)) (h @ [HArr []]) xs of
                     None \<Rightarrow> None
                   | Some (ys, m', h') \<Rightarrow> Some (VRef (length h), m', h'[length h := HArr ys]))
              | HObj kvs \<Rightarrow>
                  (case clone_vals k (m(a \<mapsto> length h)) (h @ [HObj []]) (map snd kvs) of
                     None \<Rightarrow> None
                   | Some (ys, m', h') \<Rightarrow>
                       Some (VRef (length h), m', h'[length h := HObj (zip (map fst kvs) ys)])))
           else Some (VRef a, m, h)))"
| "clone_val (Suc k) m h v = Some (v, m, h)"
| "clone_vals 0 m h vs = None"
| "clone_vals (Suc k) m h [] = Some ([], m, h)"
| "clone_vals (Suc k) m h (v # vs) =
     (case clone_val k m h v of
        None \<Rightarrow> None
      | Some (y, m1, h1) \<Rightarrow>
          (case clone_vals k m1 h1 vs of
             None \<Rightarrow> None
           | Some (ys, m2, h2) \<Rightarrow> Some (y # ys, m2, h2)))"
  by pat_completeness auto

termination
  by (relation "measure (\<lambda>x. case x of Inl a \<Rightarrow> fst a | Inr b \<Rightarrow> fst b)") auto

definition structuredClone :: "nat \<Rightarrow> heap \<Rightarrow> jsval \<Rightarrow> (jsval \<times> heap) option" where
  "structuredClone k h v =
     (case clone_val k Map.empty h v of
        None \<Rightarrow> None
      | Some (y, m, h') \<Rightarrow> Some (y, h'))"

text \<open>
  How a statement ends: normally, by a \<open>break\<close> to a label, or by a \<open>throw\<close>.
  A run gives the outcome with the locals and the world it leaves, or \<open>None\<close>
  when it does not return within the stack depth given.
\<close>

datatype outcome = Normal | Break nat | Throw exn

type_synonym result = "(outcome \<times> locals \<times> world) option"

type_synonym callee = "fid \<Rightarrow> jsval \<Rightarrow> world \<Rightarrow> ((exn + jsval) \<times> world) option"

text \<open>Calling \<open>v[i]\<close>: a function object (through \<open>callf\<close>), a user callback, or
  \<open>structuredClone\<close>.  A missing entry is not callable.\<close>

definition call_ctx :: "nat \<Rightarrow> callee \<Rightarrow> cval list \<Rightarrow> nat \<Rightarrow> jsval \<Rightarrow> world
                         \<Rightarrow> ((exn + jsval) \<times> world) option" where
  "call_ctx k callf ctx i x w =
     (if i < length ctx then
        (case ctx ! i of
           CFn g \<Rightarrow> callf g x w
         | CUser f \<Rightarrow> (case f (heap w) x of (r, h') \<Rightarrow> Some (r, w\<lparr>heap := h'\<rparr>))
         | CClone \<Rightarrow>
             (case structuredClone k (heap w) x of
                None \<Rightarrow> None
              | Some (y, h') \<Rightarrow> Some (Inr y, w\<lparr>heap := h'\<rparr>)))
      else Some (Inl TypeError, w))"

text \<open>The two loops, over the body as a function of the locals and the world.\<close>

fun forLoop :: "nat \<Rightarrow> (locals \<Rightarrow> world \<Rightarrow> result) \<Rightarrow> nat \<Rightarrow> slot \<Rightarrow> nat \<Rightarrow> locals \<Rightarrow> world \<Rightarrow> result" where
  "forLoop 0 body n e i l w = None"
| "forLoop (Suc k) body n e i l w =
     (let l1 = l\<lparr>l_ivar := (l_ivar l)(n := i)\<rparr> in
      case get_slot l1 (heap w) e of
        Inl x \<Rightarrow> Some (Throw x, l1, w)
      | Inr v \<Rightarrow>
          (case getProp (heap w) v ''length'' of
             Inl x \<Rightarrow> Some (Throw x, l1, w)
           | Inr len \<Rightarrow>
               if lessThan i len then
                 (case body l1 w of
                    None \<Rightarrow> None
                  | Some (Normal, l2, w2) \<Rightarrow> forLoop k body n e (i + 1) l2 w2
                  | Some (out, l2, w2) \<Rightarrow> Some (out, l2, w2))
               else Some (Normal, l1, w)))"

fun forInLoop :: "(locals \<Rightarrow> world \<Rightarrow> result) \<Rightarrow> nat \<Rightarrow> string list \<Rightarrow> locals \<Rightarrow> world \<Rightarrow> result" where
  "forInLoop body n [] l w = Some (Normal, l, w)"
| "forInLoop body n (key # keys) l w =
     (let l1 = l\<lparr>l_kvar := (l_kvar l)(n := key)\<rparr> in
      case body l1 w of
        None \<Rightarrow> None
      | Some (Normal, l2, w2) \<Rightarrow> forInLoop body n keys l2 w2
      | Some (out, l2, w2) \<Rightarrow> Some (out, l2, w2))"

fun find_case :: "jsval \<Rightarrow> (lit list \<times> stmt) list \<Rightarrow> stmt option" where
  "find_case v [] = None"
| "find_case v ((labels, body) # rest) =
     (if list_ex (strictEqLit v) labels then Some body else find_case v rest)"

fun nullish_err :: "exn option \<Rightarrow> bool" where
  "nullish_err None = True"
| "nullish_err (Some (ThrownVal VUndef)) = True"
| "nullish_err (Some (ThrownVal VNull)) = True"
| "nullish_err (Some x) = False"

definition err_or_failed :: "exn option \<Rightarrow> exn" where
  "err_or_failed err =
     (case err of
        None \<Rightarrow> Error ''union failed''
      | Some x \<Rightarrow> if nullish_err err then Error ''union failed'' else x)"

fun get_arg :: "locals \<Rightarrow> heap \<Rightarrow> arg \<Rightarrow> exn + jsval" where
  "get_arg l h (ArgSlot e) = get_slot l h e"
| "get_arg l h (ArgSnap n) = Inr (l_snap l n)"

fun eval_scrut :: "locals \<Rightarrow> heap \<Rightarrow> scrut \<Rightarrow> exn + jsval" where
  "eval_scrut l h (ScVal e) = get_slot l h e"
| "eval_scrut l h (ScTypeof e) =
     (case get_slot l h e of Inl x \<Rightarrow> Inl x | Inr v \<Rightarrow> Inr (VStr (typeof v)))"

definition store :: "locals \<Rightarrow> world \<Rightarrow> lref \<Rightarrow> jsval \<Rightarrow> outcome \<times> locals \<times> world" where
  "store l w r v =
     (case put_ref l (heap w) r v of
        Inl x \<Rightarrow> (Throw x, l, w)
      | Inr (l', h') \<Rightarrow> (Normal, l', w\<lparr>heap := h'\<rparr>))"

text \<open>
  \<open>exec\<close> runs a statement of a function body whose context array is \<open>ctx\<close>;
  \<open>call\<close> applies a function object: a compiled function runs its body on fresh
  locals and returns \<open>input\<close>; a trampoline does \<open>compiled ??= _cache.get(d)\<close>,
  throws when that is still \<open>undefined\<close>, and calls \<open>compiled\<close> otherwise.
\<close>

function (sequential)
      exec :: "nat \<Rightarrow> cval list \<Rightarrow> stmt \<Rightarrow> locals \<Rightarrow> world \<Rightarrow> result"
  and call :: "nat \<Rightarrow> fid \<Rightarrow> jsval \<Rightarrow> world \<Rightarrow> ((exn + jsval) \<times> world) option"
where
  "exec 0 ctx s l w = None"
| "exec (Suc k) ctx SEmpty l w = Some (Normal, l, w)"
| "exec (Suc k) ctx (SThrow ps) l w = Some (Throw (Error (eval_pieces l ps)), l, w)"
| "exec (Suc k) ctx (SIf c s) l w =
     (case eval_cond l (heap w) c of
        Inl x \<Rightarrow> Some (Throw x, l, w)
      | Inr b \<Rightarrow> if b then exec k ctx s l w else Some (Normal, l, w))"
| "exec (Suc k) ctx (SIfElse c s t) l w =
     (case eval_cond l (heap w) c of
        Inl x \<Rightarrow> Some (Throw x, l, w)
      | Inr b \<Rightarrow> if b then exec k ctx s l w else exec k ctx t l w)"
| "exec (Suc k) ctx (SIfNotCall i e s) l w =
     (case get_slot l (heap w) e of
        Inl x \<Rightarrow> Some (Throw x, l, w)
      | Inr v \<Rightarrow>
          (case call_ctx k (call k) ctx i v w of
             None \<Rightarrow> None
           | Some (Inl x, w') \<Rightarrow> Some (Throw x, l, w')
           | Some (Inr r, w') \<Rightarrow> if truthy r then Some (Normal, l, w') else exec k ctx s l w'))"
| "exec (Suc k) ctx (SSetUndef e) l w =
     (case ref_slot l (heap w) e of
        Inl x \<Rightarrow> Some (Throw x, l, w)
      | Inr r \<Rightarrow> Some (store l w r VUndef))"
| "exec (Suc k) ctx (SSetCall e i a) l w =
     (case ref_slot l (heap w) e of
        Inl x \<Rightarrow> Some (Throw x, l, w)
      | Inr r \<Rightarrow>
          (case get_arg l (heap w) a of
             Inl x \<Rightarrow> Some (Throw x, l, w)
           | Inr v \<Rightarrow>
               (case call_ctx k (call k) ctx i v w of
                  None \<Rightarrow> None
                | Some (Inl x, w') \<Rightarrow> Some (Throw x, l, w')
                | Some (Inr y, w') \<Rightarrow> Some (store l w' r y))))"
| "exec (Suc k) ctx (SFor n e s) l w = forLoop k (exec k ctx s) n e 0 l w"
| "exec (Suc k) ctx (SForIn n e s) l w =
     (case get_slot l (heap w) e of
        Inl x \<Rightarrow> Some (Throw x, l, w)
      | Inr v \<Rightarrow> forInLoop (exec k ctx s) n (forInKeys (heap w) v) l w)"
| "exec (Suc k) ctx (SSwitch x cases dflt) l w =
     (case eval_scrut l (heap w) x of
        Inl x \<Rightarrow> Some (Throw x, l, w)
      | Inr v \<Rightarrow>
          (case find_case v cases of
             Some body \<Rightarrow> exec k ctx body l w
           | None \<Rightarrow> exec k ctx dflt l w))"
| "exec (Suc k) ctx (SSeq s t) l w =
     (case exec k ctx s l w of
        None \<Rightarrow> None
      | Some (Normal, l', w') \<Rightarrow> exec k ctx t l' w'
      | Some (out, l', w') \<Rightarrow> Some (out, l', w'))"
| "exec (Suc k) ctx (SVarErrSnap n i e) l w =
     (case get_slot l (heap w) e of
        Inl x \<Rightarrow> Some (Throw x, l, w)
      | Inr v \<Rightarrow>
          (case call_ctx k (call k) ctx i v w of
             None \<Rightarrow> None
           | Some (Inl x, w') \<Rightarrow> Some (Throw x, l, w')
           | Some (Inr y, w') \<Rightarrow> Some (Normal, l\<lparr>l_snap := (l_snap l)(n := y)\<rparr>, w')))"
| "exec (Suc k) ctx (SDo n s) l w =
     (case exec k ctx s l w of
        None \<Rightarrow> None
      | Some (Break m, l', w') \<Rightarrow>
          if m = n then Some (Normal, l', w') else Some (Break m, l', w')
      | Some (out, l', w') \<Rightarrow> Some (out, l', w'))"
| "exec (Suc k) ctx (STryCatch s) l w =
     (case exec k ctx s l w of
        None \<Rightarrow> None
      | Some (Throw x, l', w') \<Rightarrow> Some (Normal, l'\<lparr>l_err := Some x\<rparr>, w')
      | Some (out, l', w') \<Rightarrow> Some (out, l', w'))"
| "exec (Suc k) ctx (SBreak n) l w = Some (Break n, l, w)"
| "exec (Suc k) ctx SThrowErr l w = Some (Throw (err_or_failed (l_err l)), l, w)"
| "call 0 g x w = None"
| "call (Suc k) g x w =
     (if g < length (funs w) then
        (case funs w ! g of
           Compiled body ctx \<Rightarrow>
             (case exec k ctx body (init_locals x) w of
                None \<Rightarrow> None
              | Some (Throw x, l', w') \<Rightarrow> Some (Inl x, w')
              | Some (out, l', w') \<Rightarrow> Some (Inr (l_input l'), w'))
         | Trampoline d compiled \<Rightarrow>
             (let compiled' = (case compiled of Some c \<Rightarrow> Some c | None \<Rightarrow> cache w d);
                  w' = w\<lparr>funs := (funs w)[g := Trampoline d compiled']\<rparr>
              in case compiled' of
                   None \<Rightarrow> Some (Inl (Error ''recursive schema not yet compiled''), w')
                 | Some c \<Rightarrow> call k c x w'))
      else Some (Inl TypeError, w))"
  by pat_completeness auto

termination
  by (relation "measure (\<lambda>x. case x of Inl a \<Rightarrow> fst a | Inr b \<Rightarrow> fst b)") auto

text \<open>\<open>parse(desc, input)\<close> is \<open>compile(desc)(input)\<close>.\<close>

definition parse :: "nat \<Rightarrow> descs \<Rightarrow> did \<Rightarrow> jsval \<Rightarrow> world \<Rightarrow> ((exn + jsval) \<times> world) option" where
  "parse k D desc input w =
     (case compile k D desc w of
        None \<Rightarrow> None
      | Some (g, w') \<Rightarrow> call k g input w')"

definition empty_world :: "heap \<Rightarrow> world" where
  "empty_world h = \<lparr>heap = h, funs = [], cache = Map.empty, building = {}\<rparr>"

section \<open>Schemas and inputs of the scenarios\<close>

text \<open>\<open>object({items: array(object({id: integer}))})\<close> and the input
  \<open>{items:[{id:1},{id:"bad"}]}\<close>, whose root is cell 3.\<close>

definition items_schema :: descs where
  "items_schema =
     (\<lambda>d. if d = 0 then SObject [(''items'', 1)]
          else if d = 1 then SArray 2
          else if d = 2 then SObject [(''id'', 3)]
          else SInteger)"

definition items_input :: heap where
  "items_input =
     [HObj [(''id'', VNum (Fin 1))],
      HObj [(''id'', VStr ''bad'')],
      HArr [VRef 0, VRef 1],
      HObj [(''items'', VRef 2)]]"

text \<open>\<open>union(integer, string)\<close>.\<close>

definition int_or_string :: descs where
  "int_or_string = (\<lambda>d. if d = 0 then SUnion [1, 2] else if d = 1 then SInteger else SString)"

section \<open>Relations between worlds\<close>

text \<open>What \<open>emit\<close> and \<open>build\<close> may do to the world: allocate function objects.\<close>

definition grows :: "world \<Rightarrow> world \<Rightarrow> bool" where
  "grows w w' = (cache w' = cache w \<and> heap w' = heap w \<and> building w' = building w
                 \<and> (\<exists>fs. funs w' = funs w @ fs))"

text \<open>What a run of emitted code leaves alone: the cache, the building set and the
  number of function objects.\<close>

definition same_tables :: "world \<Rightarrow> world \<Rightarrow> bool" where
  "same_tables w w' = (cache w' = cache w \<and> building w' = building w
                         \<and> length (funs w') = length (funs w))"

text \<open>\<open>later w w'\<close>: the program went from \<open>w\<close> to \<open>w'\<close> by calls of \<open>compile\<close>
  (on any descriptor of any table) and calls of function objects (validations).\<close>

inductive later :: "world \<Rightarrow> world \<Rightarrow> bool" where
  later_now: "later w w"
| later_compile: "later w w1 \<Longrightarrow> compile k D d w1 = Some (g, w2) \<Longrightarrow> later w w2"
| later_call: "later w w1 \<Longrightarrow> call k g x w1 = Some (r, w2) \<Longrightarrow> later w w2"

text \<open>The order in which a run with more stack depth extends one with less.\<close>

definition le_opt :: "'a option \<Rightarrow> 'a option \<Rightarrow> bool" where
  "le_opt a b = (a = None \<or> a = b)"


text \<open>
  A post with a thread of comments: \<open>comment = object({replies: array(lazy(() => comment))})\<close>,
  \<open>post = object({comments: array(comment)})\<close>.  In \<open>thread_input\<close> cell 7 is a post whose
  comment has a reply with a reply; cell 9 is a post whose comment has one reply.
\<close>

definition thread_schema :: descs where
  "thread_schema =
     (\<lambda>d. if d = 0 then SObject [(''comments'', 1)]
          else if d = 1 then SArray 2
          else if d = 2 then SObject [(''replies'', 3)]
          else if d = 3 then SArray 4
          else SLazy 2)"

definition thread_input :: heap where
  "thread_input =
     [HArr [],
      HObj [(''replies'', VRef 0)],
      HArr [VRef 1],
      HObj [(''replies'', VRef 2)],
      HArr [VRef 3],
      HObj [(''replies'', VRef 4)],
      HArr [VRef 5],
      HObj [(''comments'', VRef 6)],
      HArr [VRef 3],
      HObj [(''comments'', VRef 8)]]"











text \<open>The instances of the list shape, cell by cell: \<open>list_at h as v\<close> says that \<open>v\<close>
  is a list whose nodes are the cells \<open>as\<close>, each with an integer \<open>head\<close> and a \<open>tail\<close>
  that is the next node, or \<open>null\<close>, \<open>undefined\<close> or absent at the end.\<close>

fun list_at :: "heap \<Rightarrow> addr list \<Rightarrow> jsval \<Rightarrow> bool" where
  "list_at h [] v = (v = VNull \<or> v = VUndef)"
| "list_at h (a # as) v =
     (v = VRef a \<and> a < length h \<and> a \<notin> set as
      \<and> (\<exists>kvs q. h ! a = HObj kvs \<and> map_of kvs ''head'' = Some (VNum (Fin q)) \<and> is_int q
            \<and> ((''tail'' \<notin> fst ` set kvs \<and> as = [])
                \<or> (\<exists>t. map_of kvs ''tail'' = Some t \<and> list_at h as t))))"




text \<open>A callback that leaves the heap as it found it.\<close>

definition readonly :: "ufn \<Rightarrow> bool" where
  "readonly f = (\<forall>h x. snd (f h x) = h)"

text \<open>
  The descriptors built from \<open>string\<close>, \<open>boolean\<close>, \<open>number\<close>, \<open>integer\<close>,
  \<open>bigint\<close>, \<open>literal\<close>, \<open>oneOf\<close>, \<open>array\<close>, \<open>object\<close>, \<open>tuple\<close>, \<open>record\<close>
  and \<open>refine\<close> (with a read-only predicate), and the unions that are emitted as a
  switch: no \<open>maybe\<close>, \<open>transform\<close>, \<open>preprocess\<close>, \<open>lazy\<close> or fallback union.
\<close>

inductive pure_desc :: "descs \<Rightarrow> did \<Rightarrow> bool" for D :: descs where
  pure_string: "D d = SString \<Longrightarrow> pure_desc D d"
| pure_boolean: "D d = SBoolean \<Longrightarrow> pure_desc D d"
| pure_number: "D d = SNumber \<Longrightarrow> pure_desc D d"
| pure_integer: "D d = SInteger \<Longrightarrow> pure_desc D d"
| pure_bigint: "D d = SBigint \<Longrightarrow> pure_desc D d"
| pure_literal: "D d = SLiteral val \<Longrightarrow> pure_desc D d"
| pure_oneOf: "D d = SOneOf values \<Longrightarrow> pure_desc D d"
| pure_array: "D d = SArray item \<Longrightarrow> pure_desc D item \<Longrightarrow> pure_desc D d"
| pure_object: "D d = SObject shape \<Longrightarrow> \<forall>x \<in> set shape. pure_desc D (snd x) \<Longrightarrow> pure_desc D d"
| pure_tuple: "D d = STuple items \<Longrightarrow> \<forall>i \<in> set items. pure_desc D i \<Longrightarrow> pure_desc D d"
| pure_record: "D d = SRecord val \<Longrightarrow> pure_desc D val \<Longrightarrow> pure_desc D d"
| pure_refine: "D d = SRefine i f message \<Longrightarrow> pure_desc D i \<Longrightarrow> readonly f \<Longrightarrow> pure_desc D d"
| pure_typeof_union: "D d = SUnion variants \<Longrightarrow> unionStrategy D variants = ByTypeof tm
                      \<Longrightarrow> pure_desc D d"
| pure_key_union: "D d = SUnion variants \<Longrightarrow> unionStrategy D variants = ByKey key dm
                   \<Longrightarrow> \<forall>v \<in> set dm. \<forall>x \<in> set (shapeOf (D (snd v))). pure_desc D (snd x)
                   \<Longrightarrow> pure_desc D d"

text \<open>
  Code without a reassignment: no \<open>e=undefined\<close>, no \<open>e=v[i](..)\<close>, no snapshot,
  and every \<open>v[i]\<close> it calls in a test is a read-only callback of the context \<open>ctx\<close>.
\<close>

fun quiet :: "cval list \<Rightarrow> stmt \<Rightarrow> bool" where
  "quiet ctx SEmpty = True"
| "quiet ctx (SThrow ps) = True"
| "quiet ctx (SIf c s) = quiet ctx s"
| "quiet ctx (SIfElse c s t) = (quiet ctx s \<and> quiet ctx t)"
| "quiet ctx (SIfNotCall i e s) =
     (i < length ctx \<and> (\<exists>f. ctx ! i = CUser f \<and> readonly f) \<and> quiet ctx s)"
| "quiet ctx (SSetUndef e) = False"
| "quiet ctx (SSetCall e i a) = False"
| "quiet ctx (SFor n e s) = quiet ctx s"
| "quiet ctx (SForIn n e s) = quiet ctx s"
| "quiet ctx (SSwitch x cases dflt) = ((\<forall>c \<in> set cases. quiet ctx (snd c)) \<and> quiet ctx dflt)"
| "quiet ctx (SSeq s t) = (quiet ctx s \<and> quiet ctx t)"
| "quiet ctx (SVarErrSnap n i e) = False"
| "quiet ctx (SDo n s) = quiet ctx s"
| "quiet ctx (STryCatch s) = False"
| "quiet ctx (SBreak n) = True"
| "quiet ctx SThrowErr = True"

text \<open>An emission that returns hands back the world it got, only appends to the
  context array, and produces quiet code.\<close>

definition emits_quiet :: "cval list \<Rightarrow> world \<Rightarrow> stmt emitted \<Rightarrow> bool" where
  "emits_quiet ctx w r =
     (case r of
        None \<Rightarrow> True
      | Some (s, ctx', c', w') \<Rightarrow> w' = w \<and> (\<exists>cs. ctx' = ctx @ cs) \<and> quiet ctx' s)"

text \<open>The input \<open>{items: [{id: 1, note: null}]}\<close>, whose root is cell 2.\<close>

definition valid_items :: heap where
  "valid_items =
     [HObj [(''id'', VNum (Fin 1)), (''note'', VNull)],
      HArr [VRef 0],
      HObj [(''items'', VRef 1)]]"

text \<open>
  The ordered try as the specification words it, over the validators \<open>gs\<close> of the
  variants: \<open>try_in_order\<close> attempts them from left to right, each on a fresh deep
  copy of the snapshot, stops at the first that returns, and after the last failure
  throws the error kept from it (\<open>err ?? new Error('union failed')\<close>);
  \<open>ordered_try\<close> takes the snapshot first.
\<close>

fun try_in_order :: "nat \<Rightarrow> fid list \<Rightarrow> jsval \<Rightarrow> exn option \<Rightarrow> world
                      \<Rightarrow> ((exn + jsval) \<times> world) option" where
  "try_in_order k [] snap err w = Some (Inl (err_or_failed err), w)"
| "try_in_order k (g # gs) snap err w =
     (case structuredClone k (heap w) snap of
        None \<Rightarrow> None
      | Some (x, h1) \<Rightarrow>
          (case call k g x (w\<lparr>heap := h1\<rparr>) of
             None \<Rightarrow> None
           | Some (Inr y, w2) \<Rightarrow> Some (Inr y, w2)
           | Some (Inl e, w2) \<Rightarrow> try_in_order k gs snap (Some e) w2))"

definition ordered_try :: "nat \<Rightarrow> fid list \<Rightarrow> jsval \<Rightarrow> world \<Rightarrow> ((exn + jsval) \<times> world) option" where
  "ordered_try k gs x w =
     (case structuredClone k (heap w) x of
        None \<Rightarrow> None
      | Some (snap, h0) \<Rightarrow> try_in_order k gs snap None (w\<lparr>heap := h0\<rparr>))"


text \<open>\<open>union(object({y: maybe(number), x: string}), object({x: number, z: string}))\<close>,
  and a heap with \<open>{x:42, z:"hello", y:null}\<close> in cell 0 and \<open>{x:true}\<close> in cell 1.\<close>

definition fallback_schema :: descs where
  "fallback_schema =
     (\<lambda>d. if d = 0 then SUnion [1, 2]
          else if d = 1 then SObject [(''y'', 3), (''x'', 5)]
          else if d = 2 then SObject [(''x'', 4), (''z'', 5)]
          else if d = 3 then SMaybe 4
          else if d = 4 then SNumber
          else SString)"

definition fallback_input :: heap where
  "fallback_input =
     [HObj [(''x'', VNum (Fin 42)), (''z'', VStr ''hello''), (''y'', VNull)],
      HObj [(''x'', VBool True)]]"

text \<open>
  The part of the heap a call may write to.  With \<open>n\<close> cells allocated before,
  a value is \<open>fresh_val n\<close> when it does not point below \<open>n\<close>, and the heap is
  \<open>closed_above n\<close> when no cell from \<open>n\<close> on holds a pointer below \<open>n\<close>.
  A callback is \<open>ufn_framed\<close> when, whatever \<open>n\<close> is, given such a heap and such
  an argument it leaves the cells below \<open>n\<close> alone, keeps the heap closed and
  returns such a value.
\<close>

fun fresh_val :: "nat \<Rightarrow> jsval \<Rightarrow> bool" where
  "fresh_val n (VRef a) = (n \<le> a)"
| "fresh_val n v = True"

fun fresh_cell :: "nat \<Rightarrow> hobj \<Rightarrow> bool" where
  "fresh_cell n (HArr xs) = list_all (fresh_val n) xs"
| "fresh_cell n (HObj kvs) = list_all (fresh_val n) (map snd kvs)"

definition closed_above :: "nat \<Rightarrow> heap \<Rightarrow> bool" where
  "closed_above n h = (n \<le> length h \<and> list_all (fresh_cell n) (drop n h))"

fun res_fresh :: "nat \<Rightarrow> exn + jsval \<Rightarrow> bool" where
  "res_fresh n (Inr y) = fresh_val n y"
| "res_fresh n (Inl e) = True"

definition ufn_framed :: "ufn \<Rightarrow> bool" where
  "ufn_framed f =
     (\<forall>n h v. closed_above n h \<longrightarrow> fresh_val n v \<longrightarrow>
        (case f h v of
           (r, h') \<Rightarrow> closed_above n h' \<and> take n h' = take n h
                        \<and> res_fresh n r))"

fun cval_framed :: "cval \<Rightarrow> bool" where
  "cval_framed (CUser f) = ufn_framed f"
| "cval_framed c = True"

fun fn_framed :: "fn \<Rightarrow> bool" where
  "fn_framed (Compiled body ctx) = list_all cval_framed ctx"
| "fn_framed (Trampoline d c) = True"

definition funs_framed :: "world \<Rightarrow> bool" where
  "funs_framed w = list_all fn_framed (funs w)"

definition locals_fresh :: "nat \<Rightarrow> locals \<Rightarrow> bool" where
  "locals_fresh n l = (fresh_val n (l_input l) \<and> (\<forall>i. fresh_val n (l_snap l i)))"

fun ref_fresh :: "nat \<Rightarrow> lref \<Rightarrow> bool" where
  "ref_fresh n RootRef = True"
| "ref_fresh n (KeyRef b k) = fresh_val n b"
| "ref_fresh n (IdxRef b i) = fresh_val n b"


definition framed :: "nat \<Rightarrow> heap \<Rightarrow> world \<Rightarrow> bool" where
  "framed n h0 w = (closed_above n (heap w) \<and> take n (heap w) = h0 \<and> funs_framed w)"

(*DEFS-END*)

section \<open>Properties\<close>

subsection \<open>Error paths and the typeof union\<close>

lemma is_int_three_halves: "\<not> is_int (3 / 2)"
  by code_simp

lemma is_int_of_int [simp]: "is_int (of_int i)"
  by (simp add: is_int_def)

lemma is_int_numeral [simp]: "is_int (numeral n)"
  by (simp add: is_int_def)

text \<open>
  C4.  The validator compiled from \<open>object({items: array(object({id: integer}))})\<close>,
  applied to \<open>{items:[{id:1},{id:"bad"}]}\<close>, throws an error whose message is exactly
  \<open>items[1].id: expected integer\<close>: the static key \<open>items\<close>, the run-time index in
  brackets, the key \<open>id\<close> after a dot, then the reason.
\<close>

theorem items_path_message:
  "map_option fst (parse 20 items_schema 0 (VRef 3) (empty_world items_input))
     = Some (Inl (Error ''items[1].id: expected integer''))"
  by code_simp

text \<open>
  C5.  \<open>union(integer, string)\<close> is emitted as one switch on \<open>typeof\<close>; its
  validator returns \<open>42\<close> for \<open>42\<close> and \<open>"hello"\<close> for \<open>"hello"\<close>, and rejects
  \<open>1.5\<close> with \<open>expected integer\<close> (the \<open>number\<close> case ran the integer test), not
  with \<open>union failed\<close>.
\<close>

theorem union_integer_string:
  "unionStrategy int_or_string [1, 2] = ByTypeof [(''number'', 1), (''string'', 2)]
   \<and> map_option fst (parse 20 int_or_string 0 (VNum (Fin 42)) (empty_world []))
       = Some (Inr (VNum (Fin 42)))
   \<and> map_option fst (parse 20 int_or_string 0 (VStr ''hello'') (empty_world []))
       = Some (Inr (VStr ''hello''))
   \<and> map_option fst (parse 20 int_or_string 0 (VNum (Fin (3 / 2))) (empty_world []))
       = Some (Inl (Error ''expected integer''))"
  by code_simp

subsection \<open>Compilation only allocates function objects\<close>

lemma grows_refl [simp]: "grows w w"
  by (simp add: grows_def)

lemma grows_trans: "grows w1 w2 \<Longrightarrow> grows w2 w3 \<Longrightarrow> grows w1 w3"
  by (auto simp: grows_def)

lemma emit_fields_grows:
  assumes "emit_fields em D e p skip fs ctx c w = Some (parts, ctx', c', w')"
    and em: "\<And>d e ctx c p w s ctx' c' w'. em d e ctx c p w = Some (s, ctx', c', w') \<Longrightarrow> grows w w'"
  shows "grows w w'"
  using assms(1)
proof (induction fs arbitrary: ctx c w parts ctx' c' w')
  case Nil
  then show ?case by simp
next
  case (Cons f fs)
  obtain key fd where f: "f = (key, fd)" by (cases f)
  show ?case
  proof (cases "skip = Some key")
    case True
    with Cons f show ?thesis by simp
  next
    case False
    with Cons.prems f obtain s ctx1 c1 w1 ps where
      a: "em fd (AtKey e key) ctx c (appendKey p key) w = Some (s, ctx1, c1, w1)" and
      b: "emit_fields em D e p skip fs ctx1 c1 w1 = Some (ps, ctx', c', w')"
      by (auto split: option.splits)
    from em[OF a] Cons.IH[OF b] show ?thesis by (rule grows_trans)
  qed
qed

lemma emit_items_grows:
  assumes "emit_items em e p i items ctx c w = Some (parts, ctx', c', w')"
    and em: "\<And>d e ctx c p w s ctx' c' w'. em d e ctx c p w = Some (s, ctx', c', w') \<Longrightarrow> grows w w'"
  shows "grows w w'"
  using assms(1)
proof (induction items arbitrary: i ctx c w parts ctx' c' w')
  case Nil
  then show ?case by simp
next
  case (Cons d ds)
  from Cons.prems obtain s ctx1 c1 w1 ps where
    a: "em d (AtPos e i) ctx c (appendTupleIndex p i) w = Some (s, ctx1, c1, w1)" and
    b: "emit_items em e p (i + 1) ds ctx1 c1 w1 = Some (ps, ctx', c', w')"
    by (auto split: option.splits)
  from em[OF a] Cons.IH[OF b] show ?case by (rule grows_trans)
qed

lemma emit_cases_grows:
  assumes "emit_cases em D e p key dm ctx c w = Some (cases, ctx', c', w')"
    and em: "\<And>d e ctx c p w s ctx' c' w'. em d e ctx c p w = Some (s, ctx', c', w') \<Longrightarrow> grows w w'"
  shows "grows w w'"
  using assms(1)
proof (induction dm arbitrary: ctx c w cases ctx' c' w')
  case Nil
  then show ?case by simp
next
  case (Cons x dm)
  obtain val variant where x: "x = (val, variant)" by (cases x)
  from Cons.prems x obtain ps ctx1 c1 w1 cs where
    a: "emit_fields em D e p (Some key) (shapeOf (D variant)) ctx c w = Some (ps, ctx1, c1, w1)" and
    b: "emit_cases em D e p key dm ctx1 c1 w1 = Some (cs, ctx', c', w')"
    by (auto split: option.splits)
  from emit_fields_grows[OF a em] Cons.IH[OF b] show ?case by (rule grows_trans)
qed

lemma build_variants_grows:
  assumes "build_variants bld vs ctx w = Some (fns, ctx', w')"
    and bld: "\<And>d w g w'. bld d w = Some (g, w') \<Longrightarrow> grows w w'"
  shows "grows w w'"
  using assms(1)
proof (induction vs arbitrary: ctx w fns ctx' w')
  case Nil
  then show ?case by simp
next
  case (Cons v vs)
  from Cons.prems obtain g w1 fs where
    a: "bld v w = Some (g, w1)" and
    b: "build_variants bld vs (ctx @ [CFn g]) w1 = Some (fs, ctx', w')"
    by (auto split: option.splits)
  from bld[OF a] Cons.IH[OF b] show ?case by (rule grows_trans)
qed


lemma emit_grows: "emit k D d e ctx c p w = Some (s, ctx', c', w') \<Longrightarrow> grows w w'"
  and emit_tag_grows: "emit_tag k D t e ctx c p w = Some (s, ctx', c', w') \<Longrightarrow> grows w w'"
  and build_grows: "build k D d w = Some (g, w'') \<Longrightarrow> grows w w''"
proof (induction k arbitrary: d e ctx c p w s ctx' c' w' t g w'')
  case 0
  { case 1 then show ?case by simp }
  { case 2 then show ?case by simp }
  { case 3 then show ?case by simp }
next
  case (Suc k)
  note em = Suc.IH(1) and bl = Suc.IH(3)
  { case 1 then show ?case using Suc.IH(2) by simp }
  { case 2
    note a = this
    show ?case
    proof (cases t)
      case (SObject shape)
      with a obtain parts where "emit_fields (emit k D) D e p None shape ctx c w = Some (parts, ctx', c', w')"
        by (auto split: option.splits)
      then show ?thesis by (rule emit_fields_grows) (rule em)
    next
      case (STuple items)
      with a obtain parts where "emit_items (emit k D) e p 0 items ctx c w = Some (parts, ctx', c', w')"
        by (auto split: option.splits)
      then show ?thesis by (rule emit_items_grows) (rule em)
    next
      case (SUnion variants)
      show ?thesis
      proof (cases "unionStrategy D variants")
        case (ByTypeof tm)
        with a SUnion show ?thesis by simp
      next
        case (ByKey key dm)
        with a SUnion obtain cases where "emit_cases (emit k D) D e p key dm ctx c w = Some (cases, ctx', c', w')"
          by (auto split: option.splits)
        then show ?thesis by (rule emit_cases_grows) (rule em)
      next
        case Fallback
        with a SUnion obtain fns ctx1 where "build_variants (build k D) variants ctx w = Some (fns, ctx1, w')"
          by (auto split: option.splits)
        then show ?thesis by (rule build_variants_grows) (rule bl)
      qed
    next
      case (SMaybe i) with a show ?thesis by (auto split: option.splits dest: em)
    next
      case (SArray i) with a show ?thesis by (auto split: option.splits dest: em)
    next
      case (SRecord i) with a show ?thesis by (auto split: option.splits dest: em)
    next
      case (STransform i f) with a show ?thesis by (auto split: option.splits dest: em)
    next
      case (SRefine i f m) with a show ?thesis by (auto split: option.splits dest: em)
    next
      case (SPreprocess i f) with a show ?thesis by (auto split: option.splits dest: em)
    next
      case (SLazy i) with a show ?thesis by (auto split: option.splits dest: bl)
    qed (use a in auto) }
  { case 3
    note a = this
    show ?case
    proof (cases "d \<in> building w")
      case True
      with a show ?thesis by (auto simp: grows_def)
    next
      case False
      with a obtain body ctx c w1 where
        e: "emit k D d Input [] 0 (PS []) (w\<lparr>building := insert d (building w)\<rparr>) = Some (body, ctx, c, w1)"
        and w': "w'' = w1\<lparr>funs := funs w1 @ [Compiled body ctx], building := building w1 - {d}\<rparr>"
        by (auto split: option.splits)
      from em[OF e] False show ?thesis by (auto simp: grows_def w')
    qed }
qed

subsection \<open>Runs leave the cache alone\<close>

lemma same_tables_refl [simp]: "same_tables w w"
  by (simp add: same_tables_def)

lemma same_tables_heap [simp]: "same_tables w (w\<lparr>heap := h\<rparr>)"
  by (simp add: same_tables_def)

lemma same_tables_trans: "same_tables w1 w2 \<Longrightarrow> same_tables w2 w3 \<Longrightarrow> same_tables w1 w3"
  by (auto simp: same_tables_def)

lemma store_same_tables: "store l w r v = (out, l', w') \<Longrightarrow> same_tables w w'"
  by (auto simp: store_def split: sum.splits)

lemma call_ctx_same_tables:
  assumes "call_ctx k callf ctx i x w = Some (r, w')"
    and "\<And>g x w r w'. callf g x w = Some (r, w') \<Longrightarrow> same_tables w w'"
  shows "same_tables w w'"
  using assms
  by (auto simp: call_ctx_def split: if_splits cval.splits option.splits prod.splits)

lemma forLoop_same_tables:
  assumes "forLoop k body n e i l w = Some (out, l', w')"
    and body: "\<And>l w out l' w'. body l w = Some (out, l', w') \<Longrightarrow> same_tables w w'"
  shows "same_tables w w'"
  using assms(1)
proof (induction k arbitrary: i l w)
  case 0
  then show ?case by simp
next
  case (Suc k)
  show ?case
  proof (cases "body (l\<lparr>l_ivar := (l_ivar l)(n := i)\<rparr>) w")
    case None
    with Suc.prems show ?thesis
      by (auto simp: Let_def split: sum.splits if_splits)
  next
    case (Some r)
    obtain o1 l1 w1 where r: "r = (o1, l1, w1)" by (cases r)
    from body Some r have s1: "same_tables w w1" by blast
    show ?thesis
    proof (cases o1)
      case Normal
      with Suc.prems Some r have "forLoop k body n e (i + 1) l1 w1 = Some (out, l', w') \<or> w' = w"
        by (auto simp: Let_def split: sum.splits if_splits)
      with Suc.IH s1 show ?thesis by (auto intro: same_tables_trans)
    next
      case (Break m)
      with Suc.prems Some r s1 show ?thesis
        by (auto simp: Let_def split: sum.splits if_splits)
    next
      case (Throw x)
      with Suc.prems Some r s1 show ?thesis
        by (auto simp: Let_def split: sum.splits if_splits)
    qed
  qed
qed

lemma forInLoop_same_tables:
  assumes "forInLoop body n keys l w = Some (out, l', w')"
    and body: "\<And>l w out l' w'. body l w = Some (out, l', w') \<Longrightarrow> same_tables w w'"
  shows "same_tables w w'"
  using assms(1)
proof (induction keys arbitrary: l w)
  case Nil
  then show ?case by simp
next
  case (Cons key keys)
  show ?case
  proof (cases "body (l\<lparr>l_kvar := (l_kvar l)(n := key)\<rparr>) w")
    case None
    with Cons.prems show ?thesis by (simp add: Let_def)
  next
    case (Some r)
    obtain o1 l1 w1 where r: "r = (o1, l1, w1)" by (cases r)
    from body Some r have s1: "same_tables w w1" by blast
    show ?thesis
    proof (cases o1)
      case Normal
      with Cons.prems Some r have "forInLoop body n keys l1 w1 = Some (out, l', w')"
        by (simp add: Let_def)
      with Cons.IH s1 show ?thesis by (auto intro: same_tables_trans)
    next
      case (Break m)
      with Cons.prems Some r s1 show ?thesis by (simp add: Let_def)
    next
      case (Throw x)
      with Cons.prems Some r s1 show ?thesis by (simp add: Let_def)
    qed
  qed
qed


lemma exec_same_tables: "exec k ctx s l w = Some (out, l', w') \<Longrightarrow> same_tables w w'"
  and call_same_tables: "call k g x w = Some (r, w'') \<Longrightarrow> same_tables w w''"
proof (induction k arbitrary: ctx s l w out l' w' g x r w'')
  case 0
  { case 1 then show ?case by simp }
  { case 2 then show ?case by simp }
next
  case (Suc k)
  note ex = Suc.IH(1) and cl = Suc.IH(2)
  have cc: "same_tables w w'" if "call_ctx j (call k) ctx i x w = Some (r, w')" for j ctx i x w r w'
    using that by (rule call_ctx_same_tables) (rule cl)
  { case 1
    note a = this
    show ?case
    proof (cases s)
      case SEmpty with a show ?thesis by simp
    next
      case (SThrow ps) with a show ?thesis by simp
    next
      case (SIf c s1) with a show ?thesis
        by (auto split: sum.splits if_splits dest!: ex simp: same_tables_def)
    next
      case (SIfElse c s1 s2) with a show ?thesis
        by (auto split: sum.splits if_splits dest!: ex simp: same_tables_def)
    next
      case (SIfNotCall i e s1) with a show ?thesis
        by (auto split: sum.splits if_splits option.splits dest!: ex cc simp: same_tables_def)
    next
      case (SSetUndef e) with a show ?thesis
        by (auto split: sum.splits dest!: store_same_tables simp: same_tables_def)
    next
      case (SSetCall e i ar) with a show ?thesis
        by (auto split: sum.splits option.splits dest!: store_same_tables cc simp: same_tables_def)
    next
      case (SFor n e s1)
      with a have "forLoop k (exec k ctx s1) n e 0 l w = Some (out, l', w')" by simp
      then show ?thesis by (rule forLoop_same_tables) (rule ex)
    next
      case (SForIn n e s1)
      show ?thesis
      proof (cases "get_slot l (heap w) e")
        case (Inl x) with a SForIn show ?thesis by simp
      next
        case (Inr v)
        with a SForIn have "forInLoop (exec k ctx s1) n (forInKeys (heap w) v) l w = Some (out, l', w')" by simp
        then show ?thesis by (rule forInLoop_same_tables) (rule ex)
      qed
    next
      case (SSwitch x cases dflt) with a show ?thesis
        by (auto split: sum.splits option.splits dest!: ex simp: same_tables_def)
    next
      case (SSeq s1 s2) with a show ?thesis
        by (auto split: option.splits outcome.splits dest!: ex simp: same_tables_def)
    next
      case (SVarErrSnap n i e) with a show ?thesis
        by (auto split: sum.splits option.splits dest!: cc simp: same_tables_def)
    next
      case (SDo n s1) with a show ?thesis
        by (auto split: option.splits outcome.splits if_splits dest!: ex simp: same_tables_def)
    next
      case (STryCatch s1) with a show ?thesis
        by (auto split: option.splits outcome.splits dest!: ex simp: same_tables_def)
    next
      case (SBreak n) with a show ?thesis by simp
    next
      case SThrowErr with a show ?thesis by simp
    qed }
  { case 2
    note a = this
    show ?case
    proof (cases "g < length (funs w)")
      case False with a show ?thesis by simp
    next
      case True
      show ?thesis
      proof (cases "funs w ! g")
        case (Compiled body cx)
        with a True show ?thesis
          by (auto split: option.splits outcome.splits dest!: ex simp: same_tables_def)
      next
        case (Trampoline d cell)
        let ?c = "case cell of Some c \<Rightarrow> Some c | None \<Rightarrow> cache w d"
        let ?w = "w\<lparr>funs := (funs w)[g := Trampoline d ?c]\<rparr>"
        have s1: "same_tables w ?w" by (simp add: same_tables_def)
        show ?thesis
        proof (cases ?c)
          case None
          with a True Trampoline s1 show ?thesis by (auto simp: Let_def)
        next
          case (Some c)
          with a True Trampoline have "call k c x ?w = Some (r, w'')" by (auto simp: Let_def)
          from s1 cl[OF this] show ?thesis by (rule same_tables_trans)
        qed
      qed
    qed }
qed

subsection \<open>The compilation cache\<close>

lemma compile_sets_cache: "compile k D d w = Some (g, w') \<Longrightarrow> cache w' d = Some g"
  by (auto simp: compile_def split: option.splits)

lemma compile_keeps_cache:
  assumes "compile k D d' w = Some (g', w')" and "cache w d = Some g"
  shows "cache w' d = Some g"
proof (cases "cache w d'")
  case (Some c)
  with assms show ?thesis by (simp add: compile_def)
next
  case None
  with assms obtain w1 where b: "build k D d' w = Some (g', w1)"
    and w': "w' = w1\<lparr>cache := (cache w1)(d' \<mapsto> g')\<rparr>"
    by (auto simp: compile_def split: option.splits)
  from build_grows[OF b] have "cache w1 = cache w" by (simp add: grows_def)
  moreover from None assms(2) have "d \<noteq> d'" by auto
  ultimately show ?thesis using assms(2) by (simp add: w')
qed

lemma later_keeps_cache: "later w w' \<Longrightarrow> cache w d = Some g \<Longrightarrow> cache w' d = Some g"
proof (induction rule: later.induct)
  case (later_now w)
  then show ?case by simp
next
  case (later_compile w w1 k D d' g' w2)
  then show ?case by (auto intro: compile_keeps_cache)
next
  case (later_call w w1 k f x r w2)
  from call_same_tables[OF later_call.hyps(2)] later_call show ?case
    by (simp add: same_tables_def)
qed

text \<open>
  C7.  Once \<open>compile(d)\<close> has returned a function, every later \<open>compile(d)\<close>
  returns that same function object and changes nothing, whatever was compiled or
  validated in between: the cache is keyed by the identity of the descriptor, and
  neither \<open>build\<close> nor a running validator removes or replaces an entry.
\<close>

theorem compile_identical:
  assumes "compile k D d w = Some (g, w1)" and "later w1 w2"
  shows "compile k' D d w2 = Some (g, w2)"
proof -
  from assms(1) have "cache w1 d = Some g" by (rule compile_sets_cache)
  with assms(2) have "cache w2 d = Some g" by (rule later_keeps_cache)
  then show ?thesis by (simp add: compile_def)
qed

lemma compile_int_or_string_returns:
  "(case compile 20 int_or_string 0 (empty_world []) of
      None \<Rightarrow> False
    | Some (g, w1) \<Rightarrow>
        (case call 20 g (VNum (Fin 42)) w1 of
           None \<Rightarrow> False
         | Some (r, w2) \<Rightarrow>
             (case compile 20 int_or_string 2 w2 of
                None \<Rightarrow> False
              | Some (g1, w3) \<Rightarrow> True)))"
  by code_simp

theorem compile_identical_witness:
  "\<exists>g w1 r w2 g1 w3.
     compile 20 int_or_string 0 (empty_world []) = Some (g, w1)
     \<and> call 20 g (VNum (Fin 42)) w1 = Some (r, w2)
     \<and> compile 20 int_or_string 2 w2 = Some (g1, w3)
     \<and> later w1 w3
     \<and> compile 20 int_or_string 0 w3 = Some (g, w3)"
proof -
  note ret = compile_int_or_string_returns
  obtain g w1 where c1: "compile 20 int_or_string 0 (empty_world []) = Some (g, w1)"
    using ret by (cases "compile 20 int_or_string 0 (empty_world [])") auto
  obtain r w2 where c2: "call 20 g (VNum (Fin 42)) w1 = Some (r, w2)"
    using ret c1 by (cases "call 20 g (VNum (Fin 42)) w1") auto
  obtain g1 w3 where c3: "compile 20 int_or_string 2 w2 = Some (g1, w3)"
    using ret c1 c2 by (cases "compile 20 int_or_string 2 w2") auto
  have l: "later w1 w3"
    by (rule later_compile[OF later_call[OF later_now c2] c3])
  from compile_identical[OF c1 l] c1 c2 c3 l show ?thesis by blast
qed

subsection \<open>More stack depth changes no result\<close>

lemma le_opt_refl: "le_opt a a"
  by (simp add: le_opt_def)

lemma le_opt_None: "le_opt None b"
  by (simp add: le_opt_def)

lemma le_opt_SomeD: "le_opt a b \<Longrightarrow> a = Some r \<Longrightarrow> b = Some r"
  by (auto simp: le_opt_def)

lemma le_opt_bind:
  "le_opt m m' \<Longrightarrow> (\<And>x. le_opt (f x) (f' x))
   \<Longrightarrow> le_opt (case m of None \<Rightarrow> None | Some x \<Rightarrow> f x) (case m' of None \<Rightarrow> None | Some x \<Rightarrow> f' x)"
  by (auto simp: le_opt_def split: option.splits)

lemma le_opt_option:
  "le_opt a a' \<Longrightarrow> (\<And>x. le_opt (f x) (f' x))
   \<Longrightarrow> le_opt (case m of None \<Rightarrow> a | Some x \<Rightarrow> f x) (case m of None \<Rightarrow> a' | Some x \<Rightarrow> f' x)"
  by (auto split: option.splits)

lemma le_opt_if:
  "le_opt a a' \<Longrightarrow> le_opt b b' \<Longrightarrow> le_opt (if c then a else b) (if c then a' else b')"
  by simp

lemma le_opt_sum:
  "(\<And>x. le_opt (f x) (f' x)) \<Longrightarrow> (\<And>y. le_opt (g y) (g' y))
   \<Longrightarrow> le_opt (case s of Inl x \<Rightarrow> f x | Inr y \<Rightarrow> g y) (case s of Inl x \<Rightarrow> f' x | Inr y \<Rightarrow> g' y)"
  by (auto split: sum.splits)

lemma le_opt_prod:
  "(\<And>x y. le_opt (f x y) (f' x y))
   \<Longrightarrow> le_opt (case p of (x, y) \<Rightarrow> f x y) (case p of (x, y) \<Rightarrow> f' x y)"
  by (auto split: prod.splits)

lemma le_opt_outcome:
  "le_opt a a' \<Longrightarrow> (\<And>n. le_opt (f n) (f' n)) \<Longrightarrow> (\<And>x. le_opt (g x) (g' x))
   \<Longrightarrow> le_opt (case out of Normal \<Rightarrow> a | Break n \<Rightarrow> f n | Throw x \<Rightarrow> g x)
              (case out of Normal \<Rightarrow> a' | Break n \<Rightarrow> f' n | Throw x \<Rightarrow> g' x)"
  by (auto split: outcome.splits)

lemma le_opt_cval:
  "(\<And>g. le_opt (a g) (a' g)) \<Longrightarrow> (\<And>f. le_opt (b f) (b' f)) \<Longrightarrow> le_opt c c'
   \<Longrightarrow> le_opt (case v of CFn g \<Rightarrow> a g | CUser f \<Rightarrow> b f | CClone \<Rightarrow> c)
              (case v of CFn g \<Rightarrow> a' g | CUser f \<Rightarrow> b' f | CClone \<Rightarrow> c')"
  by (auto split: cval.splits)

lemma le_opt_fn:
  "(\<And>s c. le_opt (a s c) (a' s c)) \<Longrightarrow> (\<And>d c. le_opt (b d c) (b' d c))
   \<Longrightarrow> le_opt (case v of Compiled s c \<Rightarrow> a s c | Trampoline d c \<Rightarrow> b d c)
              (case v of Compiled s c \<Rightarrow> a' s c | Trampoline d c \<Rightarrow> b' d c)"
  by (auto split: fn.splits)

lemma le_opt_hobj:
  "(\<And>xs. le_opt (a xs) (a' xs)) \<Longrightarrow> (\<And>kvs. le_opt (b kvs) (b' kvs))
   \<Longrightarrow> le_opt (case v of HArr xs \<Rightarrow> a xs | HObj kvs \<Rightarrow> b kvs)
              (case v of HArr xs \<Rightarrow> a' xs | HObj kvs \<Rightarrow> b' kvs)"
  by (auto split: hobj.splits)

lemmas le_opt_intros =
  le_opt_refl le_opt_None le_opt_bind le_opt_option le_opt_if le_opt_sum le_opt_prod
  le_opt_outcome le_opt_cval le_opt_fn le_opt_hobj

lemma clone_val_le: "le_opt (clone_val k m h v) (clone_val (Suc k) m h v)"
  and clone_vals_le: "le_opt (clone_vals k m h vs) (clone_vals (Suc k) m h vs)"
proof (induction k arbitrary: m h v vs)
  case 0
  { case 1 show ?case by (simp add: le_opt_None) }
  { case 2 show ?case by (simp add: le_opt_None) }
next
  case (Suc k)
  { case 1
    show ?case
      by (cases v; simp only: clone_val.simps) (intro le_opt_intros Suc.IH)+ }
  { case 2
    show ?case
      by (cases vs; simp only: clone_vals.simps) (intro le_opt_intros Suc.IH)+ }
qed

lemma structuredClone_le: "le_opt (structuredClone k h v) (structuredClone (Suc k) h v)"
  unfolding structuredClone_def by (intro le_opt_intros clone_val_le)

lemma call_ctx_le:
  assumes "\<And>g x w. le_opt (callf g x w) (callf' g x w)"
  shows "le_opt (call_ctx k callf ctx i x w) (call_ctx (Suc k) callf' ctx i x w)"
  unfolding call_ctx_def by (intro le_opt_intros assms structuredClone_le)

lemma forLoop_le:
  assumes "\<And>l w. le_opt (body l w) (body' l w)"
  shows "le_opt (forLoop k body n e i l w) (forLoop (Suc k) body' n e i l w)"
proof (induction k arbitrary: i l w)
  case 0
  show ?case by (simp add: le_opt_None)
next
  case (Suc k)
  show ?case
    apply (subst forLoop.simps(2)[where k = "Suc k"])
    apply (subst forLoop.simps(2)[where k = k and body = body])
    unfolding Let_def
    by (intro le_opt_intros assms Suc.IH)
qed

lemma forInLoop_le:
  assumes "\<And>l w. le_opt (body l w) (body' l w)"
  shows "le_opt (forInLoop body n keys l w) (forInLoop body' n keys l w)"
proof (induction keys arbitrary: l w)
  case Nil
  show ?case by (simp add: le_opt_refl)
next
  case (Cons key keys)
  show ?case
    unfolding forInLoop.simps Let_def
    by (intro le_opt_intros assms Cons.IH)
qed

lemma exec_le: "le_opt (exec k ctx s l w) (exec (Suc k) ctx s l w)"
  and call_le: "le_opt (call k g x w) (call (Suc k) g x w)"
proof (induction k arbitrary: ctx s l w g x)
  case 0
  { case 1 show ?case by (simp add: le_opt_None) }
  { case 2 show ?case by (simp add: le_opt_None) }
next
  case (Suc k)
  note ih = Suc.IH call_ctx_le[of "call k" "call (Suc k)", OF Suc.IH(2)]
    forLoop_le[of "exec k ctx s" "exec (Suc k) ctx s" for ctx s, OF Suc.IH(1)]
    forInLoop_le[of "exec k ctx s" "exec (Suc k) ctx s" for ctx s, OF Suc.IH(1)]
  { case 1
    show ?case
      by (cases s; simp only: exec.simps) (intro le_opt_intros ih)+ }
  { case 2
    show ?case
      apply (subst call.simps(2)[where k = "Suc k"])
      apply (subst call.simps(2)[where k = k])
      unfolding Let_def
      by (intro le_opt_intros ih) }
qed

lemma exec_mono: "exec k ctx s l w = Some r \<Longrightarrow> k \<le> k' \<Longrightarrow> exec k' ctx s l w = Some r"
proof (induction k' arbitrary: k)
  case 0
  then show ?case by simp
next
  case (Suc k')
  show ?case
  proof (cases "k = Suc k'")
    case True with Suc.prems show ?thesis by simp
  next
    case False
    with Suc.prems have "k \<le> k'" by simp
    with Suc have "exec k' ctx s l w = Some r" by blast
    with exec_le[of k' ctx s l w] show ?thesis by (rule le_opt_SomeD)
  qed
qed

lemma call_mono: "call k g x w = Some r \<Longrightarrow> k \<le> k' \<Longrightarrow> call k' g x w = Some r"
proof (induction k' arbitrary: k)
  case 0
  then show ?case by simp
next
  case (Suc k')
  show ?case
  proof (cases "k = Suc k'")
    case True with Suc.prems show ?thesis by simp
  next
    case False
    with Suc.prems have "k \<le> k'" by simp
    with Suc have "call k' g x w = Some r" by blast
    with call_le[of k' g x w] show ?thesis by (rule le_opt_SomeD)
  qed
qed

subsection \<open>A re-entered descriptor that is never compiled\<close>



text \<open>The same from end to end: \<open>compile(post)\<close> builds \<open>comment\<close> as a sub-validator
  and never caches it, so a reply to a reply cannot be validated; one level less is
  accepted.\<close>

lemma thread_replies_fail:
  "map_option fst (parse 30 thread_schema 0 (VRef 7) (empty_world thread_input))
     = Some (Inl (Error ''recursive schema not yet compiled''))
   \<and> map_option fst (parse 30 thread_schema 0 (VRef 9) (empty_world thread_input))
     = Some (Inr (VRef 9))"
  by code_simp

subsection \<open>Recursive shapes\<close>












lemma list_at_same:
  "list_at h as v \<Longrightarrow> length h' = length h \<Longrightarrow> (\<forall>x \<in> set as. h' ! x = h ! x) \<Longrightarrow> list_at h' as v"
  by (induction as arbitrary: v) auto




lemma is_int_zero_one [simp]: "is_int 0" "is_int 1"
  by (simp_all add: is_int_def)




subsection \<open>Validators that never write\<close>



lemma quiet_mono: "quiet ctx s \<Longrightarrow> quiet (ctx @ cs) s"
  by (induction ctx s rule: quiet.induct) (auto simp: nth_append)

lemma quiet_mono2: "quiet (ctx @ cs) s \<Longrightarrow> quiet (ctx @ cs @ ds) s"
  using quiet_mono[of "ctx @ cs" s ds] by simp

lemma quiet_throwCode [simp]: "quiet ctx (throwCode p msg)"
  by (cases p) (simp_all add: Let_def)

lemma quiet_join_seq: "\<forall>s \<in> set ss. quiet ctx s \<Longrightarrow> quiet ctx (join_seq ss)"
  by (induction ss rule: join_seq.induct) auto

lemma emits_quietD:
  "emits_quiet ctx w r \<Longrightarrow> r = Some (s, ctx', c', w')
   \<Longrightarrow> w' = w \<and> (\<exists>cs. ctx' = ctx @ cs) \<and> quiet ctx' s"
  by (simp add: emits_quiet_def)

lemma emit_fields_quiet:
  assumes "emit_fields em D e p skip flds ctx c w = Some (parts, ctx', c', w')"
    and em: "\<forall>x \<in> set flds. \<forall>e ctx c p w. emits_quiet ctx w (em (snd x) e ctx c p w)"
  shows "w' = w \<and> (\<exists>cs. ctx' = ctx @ cs) \<and> (\<forall>s \<in> set parts. quiet ctx' s)"
  using assms
proof (induction flds arbitrary: ctx c w parts)
  case Nil
  then show ?case by simp
next
  case (Cons f flds)
  obtain key fd where f: "f = (key, fd)" by (cases f)
  show ?case
  proof (cases "skip = Some key")
    case True
    with Cons f show ?thesis by simp
  next
    case False
    with Cons.prems(1) f obtain s ctx1 c1 w1 ps where
      a: "em fd (AtKey e key) ctx c (appendKey p key) w = Some (s, ctx1, c1, w1)" and
      b: "emit_fields em D e p skip flds ctx1 c1 w1 = Some (ps, ctx', c', w')" and
      parts: "parts = (if isMaybeTag (D fd) then SIf (KeyIn key e) s else s) # ps"
      by (auto split: option.splits)
    from Cons.prems(2) f have "emits_quiet ctx w (em fd (AtKey e key) ctx c (appendKey p key) w)"
      by simp
    from emits_quietD[OF this a] obtain cs1 where
      w1: "w1 = w" and c1: "ctx1 = ctx @ cs1" and q1: "quiet ctx1 s" by blast
    from Cons.IH[OF b] Cons.prems(2) obtain cs2 where
      w': "w' = w1" and c2: "ctx' = ctx1 @ cs2" and q2: "\<forall>s \<in> set ps. quiet ctx' s" by auto
    from q1 c2 have "quiet ctx' s" by (simp add: quiet_mono)
    with q2 parts w' w1 c1 c2 show ?thesis by auto
  qed
qed

lemma emit_items_quiet:
  assumes "emit_items em e p i items ctx c w = Some (parts, ctx', c', w')"
    and em: "\<forall>x \<in> set items. \<forall>e ctx c p w. emits_quiet ctx w (em x e ctx c p w)"
  shows "w' = w \<and> (\<exists>cs. ctx' = ctx @ cs) \<and> (\<forall>s \<in> set parts. quiet ctx' s)"
  using assms
proof (induction items arbitrary: i ctx c w parts)
  case Nil
  then show ?case by simp
next
  case (Cons d ds)
  from Cons.prems(1) obtain s ctx1 c1 w1 ps where
    a: "em d (AtPos e i) ctx c (appendTupleIndex p i) w = Some (s, ctx1, c1, w1)" and
    b: "emit_items em e p (i + 1) ds ctx1 c1 w1 = Some (ps, ctx', c', w')" and
    parts: "parts = s # ps"
    by (auto split: option.splits)
  from Cons.prems(2) have "emits_quiet ctx w (em d (AtPos e i) ctx c (appendTupleIndex p i) w)"
    by simp
  from emits_quietD[OF this a] obtain cs1 where
    w1: "w1 = w" and c1: "ctx1 = ctx @ cs1" and q1: "quiet ctx1 s" by blast
  from Cons.IH[OF b] Cons.prems(2) obtain cs2 where
    w': "w' = w1" and c2: "ctx' = ctx1 @ cs2" and q2: "\<forall>s \<in> set ps. quiet ctx' s" by auto
  from q1 c2 have "quiet ctx' s" by (simp add: quiet_mono)
  with q2 parts w' w1 c1 c2 show ?case by auto
qed

lemma emit_cases_quiet:
  assumes "emit_cases em D e p key dm ctx c w = Some (cases, ctx', c', w')"
    and em: "\<forall>v \<in> set dm. \<forall>x \<in> set (shapeOf (D (snd v))).
               \<forall>e ctx c p w. emits_quiet ctx w (em (snd x) e ctx c p w)"
  shows "w' = w \<and> (\<exists>cs. ctx' = ctx @ cs) \<and> (\<forall>c \<in> set cases. quiet ctx' (snd c))"
  using assms
proof (induction dm arbitrary: ctx c w cases)
  case Nil
  then show ?case by simp
next
  case (Cons x dm)
  obtain val variant where x: "x = (val, variant)" by (cases x)
  from Cons.prems(1) x obtain ps ctx1 c1 w1 cs where
    a: "emit_fields em D e p (Some key) (shapeOf (D variant)) ctx c w = Some (ps, ctx1, c1, w1)" and
    b: "emit_cases em D e p key dm ctx1 c1 w1 = Some (cs, ctx', c', w')" and
    cases: "cases = ([val], join_seq ps) # cs"
    by (auto split: option.splits)
  from Cons.prems(2) x have
    "\<forall>y \<in> set (shapeOf (D variant)). \<forall>e ctx c p w. emits_quiet ctx w (em (snd y) e ctx c p w)"
    by simp
  from emit_fields_quiet[OF a this] obtain cs1 where
    w1: "w1 = w" and c1: "ctx1 = ctx @ cs1" and q1: "\<forall>s \<in> set ps. quiet ctx1 s" by blast
  from Cons.IH[OF b] Cons.prems(2) obtain cs2 where
    w': "w' = w1" and c2: "ctx' = ctx1 @ cs2" and q2: "\<forall>c \<in> set cs. quiet ctx' (snd c)" by auto
  from q1 c2 have "\<forall>s \<in> set ps. quiet ctx' s" by (simp add: quiet_mono)
  then have "quiet ctx' (join_seq ps)" by (rule quiet_join_seq)
  with q2 cases w' w1 c1 c2 show ?case by auto
qed

lemma emits_quiet_emit:
  assumes "\<And>j. emits_quiet ctx w (emit_tag (Suc j) D (D d) e ctx c p w)"
  shows "emits_quiet ctx w (emit k D d e ctx c p w)"
proof (cases k)
  case 0
  then show ?thesis by (simp add: emits_quiet_def)
next
  case (Suc k1)
  show ?thesis
  proof (cases k1)
    case 0
    with Suc show ?thesis by (simp add: emits_quiet_def)
  next
    case (Suc j)
    with \<open>k = Suc k1\<close> assms[of j] show ?thesis by simp
  qed
qed

lemma emits_quiet_leaf: "quiet ctx s \<Longrightarrow> emits_quiet ctx w (Some (s, ctx, c, w))"
  by (simp add: emits_quiet_def)

lemma pure_emits_quiet:
  "pure_desc D d \<Longrightarrow> emits_quiet ctx w (emit k D d e ctx c p w)"
proof (induction arbitrary: k e ctx c p w rule: pure_desc.induct)
  case (pure_string d)
  then show ?case by (intro emits_quiet_emit) (simp add: emits_quiet_def)
next
  case (pure_boolean d)
  then show ?case by (intro emits_quiet_emit) (simp add: emits_quiet_def)
next
  case (pure_number d)
  then show ?case by (intro emits_quiet_emit) (simp add: emits_quiet_def)
next
  case (pure_integer d)
  then show ?case by (intro emits_quiet_emit) (simp add: emits_quiet_def)
next
  case (pure_bigint d)
  then show ?case by (intro emits_quiet_emit) (simp add: emits_quiet_def)
next
  case (pure_literal d val)
  then show ?case by (intro emits_quiet_emit) (simp add: emits_quiet_def)
next
  case (pure_oneOf d vals)
  then show ?case by (intro emits_quiet_emit) (simp add: emits_quiet_def)
next
  case (pure_array d item)
  show ?case
  proof (rule emits_quiet_emit)
    fix j
    from pure_array.IH[of ctx w j "AtVar e (IVar c)" "c + 1" "appendIndex p (IVar c)"]
    show "emits_quiet ctx w (emit_tag (Suc j) D (D d) e ctx c p w)"
      using pure_array.hyps(1)
      by (auto simp: emits_quiet_def arrayCode_def split: option.splits)
  qed
next
  case (pure_object d shape)
  show ?case
  proof (rule emits_quiet_emit)
    fix j
    have "\<forall>x \<in> set shape. \<forall>e ctx c p w. emits_quiet ctx w (emit j D (snd x) e ctx c p w)"
      using pure_object.IH by blast
    then have "w' = w \<and> (\<exists>cs. ctx' = ctx @ cs) \<and> (\<forall>s \<in> set parts. quiet ctx' s)"
      if "emit_fields (emit j D) D e p None shape ctx c w = Some (parts, ctx', c', w')"
      for parts ctx' c' w'
      using emit_fields_quiet[OF that] by blast
    then show "emits_quiet ctx w (emit_tag (Suc j) D (D d) e ctx c p w)"
      using pure_object.hyps(1)
      by (auto simp: emits_quiet_def objectCode_def intro!: quiet_join_seq split: option.splits)
  qed
next
  case (pure_tuple d items)
  show ?case
  proof (rule emits_quiet_emit)
    fix j
    have "\<forall>x \<in> set items. \<forall>e ctx c p w. emits_quiet ctx w (emit j D x e ctx c p w)"
      using pure_tuple.IH by blast
    then have "w' = w \<and> (\<exists>cs. ctx' = ctx @ cs) \<and> (\<forall>s \<in> set parts. quiet ctx' s)"
      if "emit_items (emit j D) e p 0 items ctx c w = Some (parts, ctx', c', w')"
      for parts ctx' c' w'
      using emit_items_quiet[OF that] by blast
    then show "emits_quiet ctx w (emit_tag (Suc j) D (D d) e ctx c p w)"
      using pure_tuple.hyps(1)
      by (auto simp: emits_quiet_def tupleCode_def intro!: quiet_join_seq split: option.splits)
  qed
next
  case (pure_record d val)
  show ?case
  proof (rule emits_quiet_emit)
    fix j
    from pure_record.IH[of ctx w j "AtVar e (KVar c)" "c + 1" "appendIndex p (KVar c)"]
    show "emits_quiet ctx w (emit_tag (Suc j) D (D d) e ctx c p w)"
      using pure_record.hyps(1)
      by (auto simp: emits_quiet_def recordCode_def split: option.splits)
  qed
next
  case (pure_refine d i f message)
  show ?case
  proof (rule emits_quiet_emit)
    fix j
    from pure_refine.IH[of ctx w j e c p]
    show "emits_quiet ctx w (emit_tag (Suc j) D (D d) e ctx c p w)"
      using pure_refine.hyps(1,3)
      by (auto simp: emits_quiet_def refineCode_def Let_def quiet_mono2 nth_append
               split: option.splits)
  qed
next
  case (pure_typeof_union d variants tm)
  have "quiet ctx (typeofBody t e p)" for t
    by (cases t) simp_all
  then have "quiet ctx (typeofCode D p e tm)"
    by (auto simp: typeofCode_def)
  with pure_typeof_union show ?case
    by (intro emits_quiet_emit) (simp add: emits_quiet_def)
next
  case (pure_key_union d variants key dm)
  show ?case
  proof (rule emits_quiet_emit)
    fix j
    have "\<forall>v \<in> set dm. \<forall>x \<in> set (shapeOf (D (snd v))).
            \<forall>e ctx c p w. emits_quiet ctx w (emit j D (snd x) e ctx c p w)"
      using pure_key_union.IH by blast
    then have "w' = w \<and> (\<exists>cs. ctx' = ctx @ cs) \<and> (\<forall>c \<in> set cases. quiet ctx' (snd c))"
      if "emit_cases (emit j D) D e p key dm ctx c w = Some (cases, ctx', c', w')"
      for cases ctx' c' w'
      using emit_cases_quiet[OF that] by blast
    then show "emits_quiet ctx w (emit_tag (Suc j) D (D d) e ctx c p w)"
      using pure_key_union.hyps(1,2)
      by (fastforce simp: emits_quiet_def keyCode_def split: option.splits)
  qed
qed

lemma forLoop_quiet:
  assumes "forLoop k body n e i l w = Some (out, l', w')"
    and body: "\<And>l w out l' w'. body l w = Some (out, l', w') \<Longrightarrow> w' = w \<and> l_input l' = l_input l"
  shows "w' = w \<and> l_input l' = l_input l"
  using assms(1)
proof (induction k arbitrary: i l w)
  case 0
  then show ?case by simp
next
  case (Suc k)
  let ?l = "l\<lparr>l_ivar := (l_ivar l)(n := i)\<rparr>"
  show ?case
  proof (cases "body ?l w")
    case None
    with Suc.prems show ?thesis
      by (auto simp: Let_def split: sum.splits if_splits)
  next
    case (Some r)
    obtain o1 l1 w1 where r: "r = (o1, l1, w1)" by (cases r)
    from body Some r have s1: "w1 = w \<and> l_input l1 = l_input ?l" by blast
    show ?thesis
    proof (cases o1)
      case Normal
      with Suc.prems Some r have
        "forLoop k body n e (i + 1) l1 w1 = Some (out, l', w') \<or> (w' = w \<and> l' = ?l)"
        by (auto simp: Let_def split: sum.splits if_splits)
      with Suc.IH s1 show ?thesis by auto
    next
      case (Break m)
      with Suc.prems Some r s1 show ?thesis
        by (auto simp: Let_def split: sum.splits if_splits)
    next
      case (Throw x)
      with Suc.prems Some r s1 show ?thesis
        by (auto simp: Let_def split: sum.splits if_splits)
    qed
  qed
qed

lemma forInLoop_quiet:
  assumes "forInLoop body n keys l w = Some (out, l', w')"
    and body: "\<And>l w out l' w'. body l w = Some (out, l', w') \<Longrightarrow> w' = w \<and> l_input l' = l_input l"
  shows "w' = w \<and> l_input l' = l_input l"
  using assms(1)
proof (induction keys arbitrary: l w)
  case Nil
  then show ?case by simp
next
  case (Cons key keys)
  let ?l = "l\<lparr>l_kvar := (l_kvar l)(n := key)\<rparr>"
  show ?case
  proof (cases "body ?l w")
    case None
    with Cons.prems show ?thesis by (simp add: Let_def)
  next
    case (Some r)
    obtain o1 l1 w1 where r: "r = (o1, l1, w1)" by (cases r)
    from body Some r have s1: "w1 = w \<and> l_input l1 = l_input ?l" by blast
    show ?thesis
    proof (cases o1)
      case Normal
      with Cons.prems Some r have "forInLoop body n keys l1 w1 = Some (out, l', w')"
        by (simp add: Let_def)
      with Cons.IH s1 show ?thesis by auto
    next
      case (Break m)
      with Cons.prems Some r s1 show ?thesis by (simp add: Let_def)
    next
      case (Throw x)
      with Cons.prems Some r s1 show ?thesis by (simp add: Let_def)
    qed
  qed
qed

lemma find_case_quiet:
  "find_case v cases = Some body \<Longrightarrow> \<forall>c \<in> set cases. quiet ctx (snd c) \<Longrightarrow> quiet ctx body"
  by (induction cases) (auto split: if_splits)

lemma exec_quiet:
  "quiet ctx s \<Longrightarrow> exec k ctx s l w = Some (out, l', w') \<Longrightarrow> w' = w \<and> l_input l' = l_input l"
proof (induction k arbitrary: s l w out l' w')
  case 0
  then show ?case by simp
next
  case (Suc k)
  note a = Suc.prems(2) and q = Suc.prems(1)
  have ex: "w' = w \<and> l_input l' = l_input l"
    if "quiet ctx s" "exec k ctx s l w = Some (out, l', w')" for s l w out l' w'
    using Suc.IH that by blast
  show ?case
  proof (cases s)
    case SEmpty with a show ?thesis by simp
  next
    case (SThrow ps) with a show ?thesis by simp
  next
    case (SIf c s1) with a q show ?thesis
      by (auto split: sum.splits if_splits dest!: ex[rotated])
  next
    case (SIfElse c s1 s2) with a q show ?thesis
      by (auto split: sum.splits if_splits dest!: ex[rotated])
  next
    case (SIfNotCall i e s1)
    with q obtain f where f: "i < length ctx" "ctx ! i = CUser f" "readonly f" and q1: "quiet ctx s1"
      by auto
    have cc: "\<exists>r. call_ctx k (call k) ctx i v w = Some (r, w)" for v w
    proof -
      obtain r h' where fr: "f (heap w) v = (r, h')" by (cases "f (heap w) v")
      from f(3) have "snd (f (heap w) v) = heap w" unfolding readonly_def by blast
      with fr have "h' = heap w" by simp
      with fr f(1,2) show ?thesis by (simp add: call_ctx_def)
    qed
    show ?thesis
    proof (cases "get_slot l (heap w) e")
      case (Inl x) with a SIfNotCall show ?thesis by simp
    next
      case (Inr v)
      from cc[of v w] obtain r where r: "call_ctx k (call k) ctx i v w = Some (r, w)" by blast
      show ?thesis
      proof (cases r)
        case (Inl x) with a SIfNotCall Inr r show ?thesis by simp
      next
        case (Inr y)
        show ?thesis
        proof (cases "truthy y")
          case True with a SIfNotCall \<open>get_slot l (heap w) e = Inr v\<close> r Inr show ?thesis by simp
        next
          case False
          with a SIfNotCall \<open>get_slot l (heap w) e = Inr v\<close> r Inr
          have "exec k ctx s1 l w = Some (out, l', w')" by simp
          with q1 show ?thesis by (rule ex)
        qed
      qed
    qed
  next
    case (SSetUndef e) with q show ?thesis by simp
  next
    case (SSetCall e i ar) with q show ?thesis by simp
  next
    case (SFor n e s1)
    with a have "forLoop k (exec k ctx s1) n e 0 l w = Some (out, l', w')" by simp
    then show ?thesis
      by (rule forLoop_quiet) (use q SFor ex in auto)
  next
    case (SForIn n e s1)
    show ?thesis
    proof (cases "get_slot l (heap w) e")
      case (Inl x) with a SForIn show ?thesis by simp
    next
      case (Inr v)
      with a SForIn have "forInLoop (exec k ctx s1) n (forInKeys (heap w) v) l w = Some (out, l', w')"
        by simp
      then show ?thesis
        by (rule forInLoop_quiet) (use q SForIn ex in auto)
    qed
  next
    case (SSwitch x cases dflt)
    with a q show ?thesis
      by (auto split: sum.splits option.splits dest!: ex[rotated] dest: find_case_quiet)
  next
    case (SSeq s1 s2)
    with a q show ?thesis
      by (auto split: option.splits outcome.splits dest!: ex[rotated])
  next
    case (SVarErrSnap n i e) with q show ?thesis by simp
  next
    case (SDo n s1)
    with a q show ?thesis
      by (auto split: option.splits outcome.splits if_splits dest!: ex[rotated])
  next
    case (STryCatch s1) with q show ?thesis by simp
  next
    case (SBreak n) with a show ?thesis by simp
  next
    case SThrowErr with a show ?thesis by simp
  qed
qed

text \<open>
  C10.  For a descriptor of the class above, the body \<open>compile\<close> builds contains no
  reassignment of a value slot, and whenever the validator returns, the world (the
  heap with the input and all its parts) is exactly as before and a successful
  result is the very value that was passed in.
\<close>

theorem pure_validator_writes_nothing:
  assumes "pure_desc D d" and "cache w0 d = None" and "d \<notin> building w0"
    and "compile k D d w0 = Some (g, w1)"
  shows "\<exists>body ctx. g < length (funs w1) \<and> funs w1 ! g = Compiled body ctx \<and> quiet ctx body
           \<and> (\<forall>w j x r w'. g < length (funs w) \<longrightarrow> funs w ! g = Compiled body ctx
                 \<longrightarrow> call j g x w = Some (r, w')
                 \<longrightarrow> w' = w \<and> (\<forall>y. r = Inr y \<longrightarrow> y = x))"
proof -
  from assms(2,4) obtain w2 where b: "build k D d w0 = Some (g, w2)"
    by (auto simp: compile_def split: option.splits)
  from assms(2,4) b have w1: "funs w1 = funs w2" by (auto simp: compile_def)
  from b assms(3) obtain k1 where k: "k = Suc k1" by (cases k) auto
  let ?w = "w0\<lparr>building := insert d (building w0)\<rparr>"
  from b assms(3) k obtain body ctx c w3 where
    e: "emit k1 D d Input [] 0 (PS []) ?w = Some (body, ctx, c, w3)" and
    g: "g = length (funs w3)" and
    w2: "w2 = w3\<lparr>funs := funs w3 @ [Compiled body ctx], building := building w3 - {d}\<rparr>"
    by (auto split: option.splits)
  from pure_emits_quiet[OF assms(1), of "[]" ?w k1 Input 0 "PS []"] e
  have q: "quiet ctx body" by (simp add: emits_quiet_def)
  have run: "w' = w \<and> (\<forall>y. r = Inr y \<longrightarrow> y = x)"
    if "g < length (funs w)" "funs w ! g = Compiled body ctx" "call j g x w = Some (r, w')"
    for w j x r w'
  proof -
    from that(3) obtain j1 where j: "j = Suc j1" by (cases j) auto
    from that j obtain out l' where
      ex: "exec j1 ctx body (init_locals x) w = Some (out, l', w')" and
      r: "r = (case out of Throw e \<Rightarrow> Inl e | _ \<Rightarrow> Inr (l_input l'))"
      by (auto split: option.splits outcome.splits)
    from exec_quiet[OF q ex] have "w' = w" "l_input l' = x" by (simp_all add: init_locals_def)
    with r show ?thesis by (auto split: outcome.splits)
  qed
  from g w2 w1 have "g < length (funs w1)" "funs w1 ! g = Compiled body ctx" by simp_all
  with q run show ?thesis by blast
qed

lemma pure_items_schema: "pure_desc items_schema 0"
proof -
  have 3: "pure_desc items_schema 3"
    by (rule pure_integer) (simp add: items_schema_def)
  have 2: "pure_desc items_schema 2"
    by (rule pure_object[where shape = "[(''id'', 3)]"], simp add: items_schema_def, simp add: 3)
  have 1: "pure_desc items_schema 1"
    by (rule pure_array[where item = 2], simp add: items_schema_def, rule 2)
  show ?thesis
    by (rule pure_object[where shape = "[(''items'', 1)]"], simp add: items_schema_def)
       (use 1 in simp)
qed

lemma valid_items_accepted:
  "(case compile 20 items_schema 0 (empty_world valid_items) of
      None \<Rightarrow> False
    | Some (g, w1) \<Rightarrow>
        g < length (funs w1) \<and>
        (case call 20 g (VRef 2) w1 of
           None \<Rightarrow> False
         | Some (r, w2) \<Rightarrow> r = Inr (VRef 2) \<and> heap w2 = valid_items))"
  by code_simp

theorem pure_validator_writes_nothing_witness:
  "pure_desc items_schema 0
   \<and> cache (empty_world valid_items) 0 = None
   \<and> 0 \<notin> building (empty_world valid_items)
   \<and> (\<exists>g w1 r. compile 20 items_schema 0 (empty_world valid_items) = Some (g, w1)
         \<and> call 20 g (VRef 2) w1 = Some (Inr (VRef 2), w1))"
proof -
  have c: "cache (empty_world valid_items) 0 = None" and b: "0 \<notin> building (empty_world valid_items)"
    by (simp_all add: empty_world_def)
  note va = valid_items_accepted
  obtain g w1 where c1: "compile 20 items_schema 0 (empty_world valid_items) = Some (g, w1)"
    using va by (cases "compile 20 items_schema 0 (empty_world valid_items)") auto
  obtain r w2 where c2: "call 20 g (VRef 2) w1 = Some (r, w2)" and r: "r = Inr (VRef 2)"
    using va c1 by (cases "call 20 g (VRef 2) w1") auto
  from pure_validator_writes_nothing[OF pure_items_schema c b c1] c2
  have "w2 = w1" by blast
  with c1 c2 r c b pure_items_schema show ?thesis by blast
qed

subsection \<open>The ordered try of the fallback union\<close>

lemma structuredClone_mono:
  "structuredClone k h v = Some r \<Longrightarrow> k \<le> k' \<Longrightarrow> structuredClone k' h v = Some r"
proof (induction k' arbitrary: k)
  case 0
  then show ?case by simp
next
  case (Suc k')
  show ?case
  proof (cases "k = Suc k'")
    case True with Suc.prems show ?thesis by simp
  next
    case False
    with Suc.prems have "k \<le> k'" by simp
    with Suc have "structuredClone k' h v = Some r" by blast
    with structuredClone_le[of k' h v] show ?thesis by (rule le_opt_SomeD)
  qed
qed

lemma le_opt_monoI:
  assumes "\<And>r. a = Some r \<Longrightarrow> b = Some r"
  shows "le_opt a b"
  using assms by (cases a) (auto simp: le_opt_def)

lemma structuredClone_le2: "k \<le> k' \<Longrightarrow> le_opt (structuredClone k h v) (structuredClone k' h v)"
  by (rule le_opt_monoI) (rule structuredClone_mono)

lemma call_le2: "k \<le> k' \<Longrightarrow> le_opt (call k g x w) (call k' g x w)"
  by (rule le_opt_monoI) (rule call_mono)

lemma exec_le2: "k \<le> k' \<Longrightarrow> le_opt (exec k ctx s l w) (exec k' ctx s l w)"
  by (rule le_opt_monoI) (rule exec_mono)

lemma try_in_order_le:
  "k \<le> k' \<Longrightarrow> le_opt (try_in_order k gs snap err w) (try_in_order k' gs snap err w)"
proof (induction gs arbitrary: err w)
  case Nil
  show ?case by (simp add: le_opt_refl)
next
  case (Cons g gs)
  show ?case
    unfolding try_in_order.simps
    by (intro le_opt_intros structuredClone_le2 call_le2 Cons.IH Cons.prems)
qed

lemma ordered_try_le:
  "k \<le> k' \<Longrightarrow> le_opt (ordered_try k gs x w) (ordered_try k' gs x w)"
  unfolding ordered_try_def
  by (intro le_opt_intros structuredClone_le2 try_in_order_le)


lemma ordered_try_mono:
  "ordered_try k gs x w = Some r \<Longrightarrow> k \<le> k' \<Longrightarrow> ordered_try k' gs x w = Some r"
  using ordered_try_le[of k k' gs x w] by (auto simp: le_opt_def)














lemma fallback_all_fail:
  "(case build 20 fallback_schema 0 (empty_world fallback_input) of
      None \<Rightarrow> False
    | Some (g, w1) \<Rightarrow>
        (case call 20 g (VRef 1) w1 of
           None \<Rightarrow> False
         | Some (r, w2) \<Rightarrow> r = Inl (Error ''x: expected finite number'')))"
  by code_simp


subsection \<open>The frame of the fallback union\<close>

lemma closed_aboveD:
  assumes "closed_above n h" "n \<le> a" "a < length h"
  shows "fresh_cell n (h ! a)"
proof -
  from assms have "a - n < length (drop n h)" by simp
  with assms(1) have "fresh_cell n (drop n h ! (a - n))"
    unfolding closed_above_def list_all_length by blast
  with assms show ?thesis by simp
qed

lemma closed_above_update:
  assumes "closed_above n h" "n \<le> a" "fresh_cell n c"
  shows "closed_above n (h[a := c])" "take n (h[a := c]) = take n h"
proof -
  have "drop n (h[a := c]) = (drop n h)[a - n := c]"
    using assms(2) by (simp add: drop_update_swap)
  moreover have "list_all (fresh_cell n) ((drop n h)[a - n := c])"
    using assms(1,3) set_update_subset_insert[of "drop n h" "a - n" c]
    by (auto simp: closed_above_def list_all_iff)
  ultimately show "closed_above n (h[a := c])" using assms(1) by (simp add: closed_above_def)
  show "take n (h[a := c]) = take n h" using assms(2) by simp
qed

lemma closed_above_append:
  assumes "closed_above n h" "fresh_cell n c"
  shows "closed_above n (h @ [c])" "take n (h @ [c]) = take n h"
  using assms by (simp_all add: closed_above_def)


lemma arrayIndexOf_less: "arrayIndexOf len k = Some i \<Longrightarrow> i < len"
  by (auto simp: arrayIndexOf_def find_Some_iff)

lemma fresh_numOfNat [simp]: "fresh_val n (numOfNat i)"
  by (simp add: numOfNat_def)

lemma fresh_replicate: "list_all (fresh_val n) (replicate m VUndef)"
  by (induction m) auto

lemma list_all_nth: "list_all P xs \<Longrightarrow> i < length xs \<Longrightarrow> P (xs ! i)"
  by (simp add: list_all_length)

lemma list_all_map_of:
  "list_all P (map snd kvs) \<Longrightarrow> map_of kvs k = Some v \<Longrightarrow> P v"
  by (auto simp: list_all_iff dest!: map_of_SomeD)

lemma list_all_alist_update:
  "list_all P (map snd kvs) \<Longrightarrow> P v \<Longrightarrow> list_all P (map snd (AList.update k v kvs))"
  by (induction kvs) auto

lemma list_all_list_update:
  "list_all P xs \<Longrightarrow> P v \<Longrightarrow> list_all P (xs[i := v])"
  using set_update_subset_insert[of xs i v] by (auto simp: list_all_iff)

lemma getProp_fresh:
  assumes "closed_above n h" "fresh_val n b" "getProp h b k = Inr v"
  shows "fresh_val n v"
proof (cases b)
  case (VRef a)
  show ?thesis
  proof (cases "a < length h")
    case True
    with assms VRef have c: "fresh_cell n (h ! a)" by (auto intro: closed_aboveD)
    with assms(3) VRef True show ?thesis
      by (auto split: hobj.splits option.splits if_splits
               dest: arrayIndexOf_less list_all_nth list_all_map_of)
  next
    case False
    with assms VRef show ?thesis by auto
  qed
qed (use assms in \<open>auto split: if_splits option.splits\<close>)

lemma getIdx_fresh:
  assumes "closed_above n h" "fresh_val n b" "getIdx h b i = Inr v"
  shows "fresh_val n v"
proof (cases b)
  case (VRef a)
  show ?thesis
  proof (cases "a < length h")
    case True
    with assms VRef have c: "fresh_cell n (h ! a)" by (auto intro: closed_aboveD)
    with assms(3) VRef True show ?thesis
      by (auto split: hobj.splits option.splits if_splits
               dest: list_all_nth list_all_map_of)
  next
    case False
    with assms VRef show ?thesis by auto
  qed
qed (use assms in \<open>auto split: if_splits option.splits\<close>)

lemma setProp_framed:
  assumes "closed_above n h" "fresh_val n b" "fresh_val n v" "setProp h b k v = Inr h'"
  shows "closed_above n h' \<and> take n h' = take n h"
proof (cases b)
  case (VRef a)
  show ?thesis
  proof (cases "a < length h")
    case True
    with assms VRef have c: "fresh_cell n (h ! a)" and a: "n \<le> a" by (auto intro: closed_aboveD)
    show ?thesis
    proof (cases "h ! a")
      case (HArr xs)
      show ?thesis
      proof (cases "arrayIndexOf (length xs) k")
        case None
        with assms VRef True HArr show ?thesis by simp
      next
        case (Some i)
        from c HArr assms(3) have "fresh_cell n (HArr (xs[i := v]))"
          by (simp add: list_all_list_update)
        from closed_above_update[OF assms(1) a this] assms(4) VRef True HArr Some
        show ?thesis by auto
      qed
    next
      case (HObj kvs)
      from c HObj assms(3) have "fresh_cell n (HObj (AList.update k v kvs))"
        by (simp add: list_all_alist_update)
      from closed_above_update[OF assms(1) a this] assms(4) VRef True HObj
      show ?thesis by auto
    qed
  next
    case False
    with assms VRef show ?thesis by auto
  qed
qed (use assms in auto)

lemma setIdx_framed:
  assumes "closed_above n h" "fresh_val n b" "fresh_val n v" "setIdx h b i v = Inr h'"
  shows "closed_above n h' \<and> take n h' = take n h"
proof (cases b)
  case (VRef a)
  show ?thesis
  proof (cases "a < length h")
    case True
    with assms VRef have c: "fresh_cell n (h ! a)" and a: "n \<le> a" by (auto intro: closed_aboveD)
    show ?thesis
    proof (cases "h ! a")
      case (HArr xs)
      from c HArr assms(3) have
        "fresh_cell n (HArr (if i < length xs then xs[i := v]
                             else xs @ replicate (i - length xs) VUndef @ [v]))"
        by (cases "i < length xs") (simp_all add: list_all_list_update fresh_replicate)
      from closed_above_update[OF assms(1) a this] assms(4) VRef True HArr
      show ?thesis by auto
    next
      case (HObj kvs)
      from c HObj assms(3) have "fresh_cell n (HObj (AList.update (show_nat i) v kvs))"
        by (simp add: list_all_alist_update)
      from closed_above_update[OF assms(1) a this] assms(4) VRef True HObj
      show ?thesis by auto
    qed
  next
    case False
    with assms VRef show ?thesis by auto
  qed
qed (use assms in auto)

lemma get_slot_fresh:
  assumes "closed_above n h" "locals_fresh n l"
  shows "get_slot l h e = Inr v \<Longrightarrow> fresh_val n v"
proof (induction e arbitrary: v)
  case Input
  with assms(2) show ?case by (auto simp: locals_fresh_def)
next
  case (AtVar e x)
  with assms(1) show ?case
    by (cases x) (auto split: sum.splits dest: getIdx_fresh[rotated 2] getProp_fresh[rotated 2])
next
  case (AtKey e k)
  with assms(1) show ?case by (auto split: sum.splits dest: getProp_fresh[rotated 2])
next
  case (AtPos e i)
  with assms(1) show ?case by (auto split: sum.splits dest: getIdx_fresh[rotated 2])
qed

lemma ref_slot_fresh:
  assumes "closed_above n h" "locals_fresh n l" "ref_slot l h e = Inr r"
  shows "ref_fresh n r"
proof (cases e)
  case Input
  with assms show ?thesis by auto
next
  case (AtVar e' x)
  with assms show ?thesis
    by (cases x) (auto split: sum.splits dest: get_slot_fresh[rotated 2])
next
  case (AtKey e' k)
  with assms show ?thesis by (auto split: sum.splits dest: get_slot_fresh[rotated 2])
next
  case (AtPos e' i)
  with assms show ?thesis by (auto split: sum.splits dest: get_slot_fresh[rotated 2])
qed

lemma store_framed:
  assumes "framed n h0 w" "locals_fresh n l" "ref_fresh n r" "fresh_val n v"
    and "store l w r v = (out, l', w')"
  shows "framed n h0 w' \<and> locals_fresh n l'"
proof (cases r)
  case RootRef
  with assms show ?thesis by (auto simp: store_def locals_fresh_def)
next
  case (KeyRef b k)
  show ?thesis
  proof (cases "setProp (heap w) b k v")
    case (Inl x)
    with assms KeyRef show ?thesis by (auto simp: store_def)
  next
    case (Inr h')
    from assms(1,3,4) KeyRef have "closed_above n (heap w)" "fresh_val n b" "fresh_val n v"
      by (simp_all add: framed_def)
    from this Inr have "closed_above n h' \<and> take n h' = take n (heap w)"
      by (rule setProp_framed)
    with assms Inr KeyRef show ?thesis by (auto simp: store_def framed_def funs_framed_def)
  qed
next
  case (IdxRef b i)
  show ?thesis
  proof (cases "setIdx (heap w) b i v")
    case (Inl x)
    with assms IdxRef show ?thesis by (auto simp: store_def)
  next
    case (Inr h')
    from assms(1,3,4) IdxRef have "closed_above n (heap w)" "fresh_val n b" "fresh_val n v"
      by (simp_all add: framed_def)
    from this Inr have "closed_above n h' \<and> take n h' = take n (heap w)"
      by (rule setIdx_framed)
    with assms Inr IdxRef show ?thesis by (auto simp: store_def framed_def funs_framed_def)
  qed
qed

lemma clone_val_framed:
  "clone_val k m h v = Some (y, m', h') \<Longrightarrow> closed_above n h
     \<Longrightarrow> (\<forall>a a'. m a = Some a' \<longrightarrow> n \<le> a')
     \<Longrightarrow> closed_above n h' \<and> take n h' = take n h \<and> length h \<le> length h' \<and> fresh_val n y
           \<and> (\<forall>a a'. m' a = Some a' \<longrightarrow> n \<le> a')"
  and clone_vals_framed:
  "clone_vals k m h vs = Some (ys, m', h') \<Longrightarrow> closed_above n h
     \<Longrightarrow> (\<forall>a a'. m a = Some a' \<longrightarrow> n \<le> a')
     \<Longrightarrow> closed_above n h' \<and> take n h' = take n h \<and> length h \<le> length h'
           \<and> list_all (fresh_val n) ys
           \<and> (\<forall>a a'. m' a = Some a' \<longrightarrow> n \<le> a')"
proof (induction k arbitrary: m h v y m' h' vs ys)
  case 0
  { case 1 then show ?case by simp }
  { case 2 then show ?case by simp }
next
  case (Suc k)
  note cv = Suc.IH(1) and cvs = Suc.IH(2)
  { case 1
    note a = this
    show ?case
    proof (cases v)
      case (VRef ad)
      show ?thesis
      proof (cases "m ad")
        case (Some a')
        with a VRef show ?thesis by auto
      next
        case None
        show ?thesis
        proof (cases "ad < length h")
          case False
          with a VRef None show ?thesis by (auto simp: closed_above_def)
        next
          case True
          from a(2) have nl: "n \<le> length h" unfolding closed_above_def by blast
          let ?m = "m(ad \<mapsto> length h)"
          have mm: "\<forall>a a'. ?m a = Some a' \<longrightarrow> n \<le> a'" using a(3) nl by auto
          show ?thesis
          proof (cases "h ! ad")
            case (HArr xs)
            have c0: "closed_above n (h @ [HArr []])" "take n (h @ [HArr []]) = take n h"
              using a(2) nl by (simp_all add: closed_above_append)
            from a(1) VRef None True HArr obtain zs h1 where
              r: "clone_vals k ?m (h @ [HArr []]) xs = Some (zs, m', h1)" and
              y: "y = VRef (length h)" and h': "h' = h1[length h := HArr zs]"
              by (auto split: option.splits)
            from cvs[OF r c0(1) mm] have
              i: "closed_above n h1" "take n h1 = take n h" "Suc (length h) \<le> length h1"
                 "list_all (fresh_val n) zs" "\<forall>a a'. m' a = Some a' \<longrightarrow> n \<le> a'"
              using c0(2) by simp_all
            from closed_above_update[OF i(1) nl, of "HArr zs"] i y h' nl show ?thesis by simp
          next
            case (HObj kvs)
            have c0: "closed_above n (h @ [HObj []])" "take n (h @ [HObj []]) = take n h"
              using a(2) nl by (simp_all add: closed_above_append)
            from a(1) VRef None True HObj obtain zs h1 where
              r: "clone_vals k ?m (h @ [HObj []]) (map snd kvs) = Some (zs, m', h1)" and
              y: "y = VRef (length h)" and h': "h' = h1[length h := HObj (zip (map fst kvs) zs)]"
              by (auto split: option.splits)
            from cvs[OF r c0(1) mm] have
              i: "closed_above n h1" "take n h1 = take n h" "Suc (length h) \<le> length h1"
                 "list_all (fresh_val n) zs" "\<forall>a a'. m' a = Some a' \<longrightarrow> n \<le> a'"
              using c0(2) by simp_all
            have "list_all (fresh_val n) (map snd (zip (map fst kvs) zs))"
              using i(4) by (auto simp: list_all_iff dest: set_zip_rightD)
            hence "fresh_cell n (HObj (zip (map fst kvs) zs))" by simp
            from closed_above_update[OF i(1) nl this] i y h' nl show ?thesis by simp
          qed
        qed
      qed
    qed (use a in auto) }
  { case 2
    note a = this
    show ?case
    proof (cases vs)
      case Nil
      with a show ?thesis by simp
    next
      case (Cons x xs)
      from a(1) Cons obtain z m1 h1 zs where
        r1: "clone_val k m h x = Some (z, m1, h1)" and
        r2: "clone_vals k m1 h1 xs = Some (zs, m', h')" and ys: "ys = z # zs"
        by (auto split: option.splits)
      from cv[OF r1 a(2,3)] have
        i: "closed_above n h1" "take n h1 = take n h" "length h \<le> length h1" "fresh_val n z"
           "\<forall>a a'. m1 a = Some a' \<longrightarrow> n \<le> a'" by simp_all
      from cvs[OF r2 i(1) i(5)] i ys show ?thesis by simp
    qed }
qed

lemma structuredClone_framed:
  assumes "structuredClone k h v = Some (y, h')" "closed_above n h"
  shows "closed_above n h' \<and> take n h' = take n h \<and> length h \<le> length h' \<and> fresh_val n y"
proof -
  from assms(1) obtain m' where "clone_val k Map.empty h v = Some (y, m', h')"
    by (auto simp: structuredClone_def split: option.splits)
  from clone_val_framed[OF this assms(2)] show ?thesis by simp
qed

lemma locals_fresh_upd [simp]:
  "locals_fresh n (l\<lparr>l_ivar := iv\<rparr>) = locals_fresh n l"
  "locals_fresh n (l\<lparr>l_kvar := kv\<rparr>) = locals_fresh n l"
  "locals_fresh n (l\<lparr>l_err := er\<rparr>) = locals_fresh n l"
  by (simp_all add: locals_fresh_def)

lemma locals_fresh_init: "fresh_val n x \<Longrightarrow> locals_fresh n (init_locals x)"
  by (simp add: locals_fresh_def init_locals_def)

lemma locals_fresh_snap:
  "locals_fresh n l \<Longrightarrow> fresh_val n y \<Longrightarrow> locals_fresh n (l\<lparr>l_snap := (l_snap l)(i := y)\<rparr>)"
  by (simp add: locals_fresh_def)

lemma get_arg_fresh:
  assumes "closed_above n h" "locals_fresh n l" "get_arg l h a = Inr v"
  shows "fresh_val n v"
proof (cases a)
  case (ArgSlot e)
  with assms show ?thesis by (auto dest: get_slot_fresh[rotated 2])
next
  case (ArgSnap i)
  with assms show ?thesis by (auto simp: locals_fresh_def)
qed

lemma call_ctx_framed:
  assumes c: "call_ctx j callf ctx i x w = Some (r, w')"
    and f: "framed n h0 w" and cx: "list_all cval_framed ctx" and x: "fresh_val n x"
    and callf: "\<And>g x w r w'. callf g x w = Some (r, w') \<Longrightarrow> framed n h0 w \<Longrightarrow> fresh_val n x
                  \<Longrightarrow> framed n h0 w' \<and> res_fresh n r"
  shows "framed n h0 w' \<and> res_fresh n r"
proof (cases "i < length ctx")
  case False
  with c f show ?thesis by (auto simp: call_ctx_def)
next
  case True
  show ?thesis
  proof (cases "ctx ! i")
    case (CFn g)
    with c True have "callf g x w = Some (r, w')" by (simp add: call_ctx_def)
    from callf[OF this f x] show ?thesis .
  next
    case (CUser u)
    from cx True CUser have u: "ufn_framed u" by (auto dest: list_all_nth)
    obtain q h' where q: "u (heap w) x = (q, h')" by (cases "u (heap w) x")
    from f have "closed_above n (heap w)" by (simp add: framed_def)
    with u x q have "closed_above n h' \<and> take n h' = take n (heap w) \<and> res_fresh n q"
      unfolding ufn_framed_def by fastforce
    with c True CUser q f show ?thesis by (auto simp: call_ctx_def framed_def funs_framed_def)
  next
    case CClone
    with c True obtain y h' where
      s: "structuredClone j (heap w) x = Some (y, h')" and r: "r = Inr y" "w' = w\<lparr>heap := h'\<rparr>"
      by (auto simp: call_ctx_def split: option.splits)
    from f have "closed_above n (heap w)" by (simp add: framed_def)
    from structuredClone_framed[OF s this] r f show ?thesis
      by (auto simp: framed_def funs_framed_def)
  qed
qed

lemma forLoop_framed:
  assumes "forLoop k body m e i l w = Some (out, l', w')"
    and "framed n h0 w" and "locals_fresh n l"
    and body: "\<And>l w out l' w'. body l w = Some (out, l', w') \<Longrightarrow> framed n h0 w
                 \<Longrightarrow> locals_fresh n l \<Longrightarrow> framed n h0 w' \<and> locals_fresh n l'"
  shows "framed n h0 w' \<and> locals_fresh n l'"
  using assms(1-3)
proof (induction k arbitrary: i l w)
  case 0
  then show ?case by simp
next
  case (Suc k)
  let ?l1 = "l\<lparr>l_ivar := (l_ivar l)(m := i)\<rparr>"
  have l1: "locals_fresh n ?l1" using Suc.prems(3) by simp
  show ?case
  proof (cases "body ?l1 w")
    case None
    with Suc.prems l1 show ?thesis
      by (auto simp: Let_def split: sum.splits if_splits)
  next
    case (Some r)
    obtain o1 l2 w2 where r: "r = (o1, l2, w2)" by (cases r)
    from body[OF Some[unfolded r] Suc.prems(2) l1] have s1: "framed n h0 w2" "locals_fresh n l2"
      by simp_all
    show ?thesis
    proof (cases o1)
      case Normal
      with Suc.prems(1) Some r have
        "forLoop k body m e (i + 1) l2 w2 = Some (out, l', w') \<or> (w' = w \<and> l' = ?l1)"
        by (auto simp: Let_def split: sum.splits if_splits)
      with Suc.IH s1 Suc.prems(2) l1 show ?thesis by blast
    next
      case (Break b)
      with Suc.prems Some r s1 l1 show ?thesis
        by (auto simp: Let_def split: sum.splits if_splits)
    next
      case (Throw x)
      with Suc.prems Some r s1 l1 show ?thesis
        by (auto simp: Let_def split: sum.splits if_splits)
    qed
  qed
qed

lemma forInLoop_framed:
  assumes "forInLoop body m keys l w = Some (out, l', w')"
    and "framed n h0 w" and "locals_fresh n l"
    and body: "\<And>l w out l' w'. body l w = Some (out, l', w') \<Longrightarrow> framed n h0 w
                 \<Longrightarrow> locals_fresh n l \<Longrightarrow> framed n h0 w' \<and> locals_fresh n l'"
  shows "framed n h0 w' \<and> locals_fresh n l'"
  using assms(1-3)
proof (induction keys arbitrary: l w)
  case Nil
  then show ?case by simp
next
  case (Cons key keys)
  let ?l1 = "l\<lparr>l_kvar := (l_kvar l)(m := key)\<rparr>"
  have l1: "locals_fresh n ?l1" using Cons.prems(3) by simp
  show ?case
  proof (cases "body ?l1 w")
    case None
    with Cons.prems show ?thesis by (simp add: Let_def)
  next
    case (Some r)
    obtain o1 l2 w2 where r: "r = (o1, l2, w2)" by (cases r)
    from body[OF Some[unfolded r] Cons.prems(2) l1] have s1: "framed n h0 w2" "locals_fresh n l2"
      by simp_all
    show ?thesis
    proof (cases o1)
      case Normal
      with Cons.prems(1) Some r have "forInLoop body m keys l2 w2 = Some (out, l', w')"
        by (simp add: Let_def)
      with Cons.IH s1 show ?thesis by blast
    next
      case (Break b)
      with Cons.prems Some r s1 show ?thesis by (simp add: Let_def)
    next
      case (Throw x)
      with Cons.prems Some r s1 show ?thesis by (simp add: Let_def)
    qed
  qed
qed

lemma exec_framed:
  "exec k ctx s l w = Some (out, l', w') \<Longrightarrow> framed n h0 w \<Longrightarrow> list_all cval_framed ctx
     \<Longrightarrow> locals_fresh n l \<Longrightarrow> framed n h0 w' \<and> locals_fresh n l'"
  and call_framed:
  "call k g x w = Some (r, w'') \<Longrightarrow> framed n h0 w \<Longrightarrow> fresh_val n x
     \<Longrightarrow> framed n h0 w'' \<and> res_fresh n r"
proof (induction k arbitrary: ctx s l w out l' w' g x r w'')
  case 0
  { case 1 then show ?case by simp }
  { case 2 then show ?case by simp }
next
  case (Suc k)
  note ex = Suc.IH(1) and cl = Suc.IH(2)
  have cc: "framed n h0 w' \<and> res_fresh n r"
    if "call_ctx j (call k) ctx i x w = Some (r, w')" "framed n h0 w" "list_all cval_framed ctx"
       "fresh_val n x" for j ctx i x w r w'
    using that by (rule call_ctx_framed) (rule cl)
  { case 1
    note a = this(1) and f = this(2) and cx = this(3) and lf = this(4)
    from f have ch: "closed_above n (heap w)" by (simp add: framed_def)
    show ?case
    proof (cases s)
      case SEmpty with a f lf show ?thesis by simp
    next
      case (SThrow ps) with a f lf show ?thesis by simp
    next
      case (SIf c s1)
      with a f lf have "exec k ctx s1 l w = Some (out, l', w') \<or> (w' = w \<and> l' = l)"
        by (auto split: sum.splits if_splits)
      with ex[OF _ f cx lf] f lf show ?thesis by blast
    next
      case (SIfElse c s1 s2)
      with a f lf have "exec k ctx s1 l w = Some (out, l', w')
          \<or> exec k ctx s2 l w = Some (out, l', w') \<or> (w' = w \<and> l' = l)"
        by (auto split: sum.splits if_splits)
      with ex[OF _ f cx lf] f lf show ?thesis by blast
    next
      case (SIfNotCall i e s1)
      show ?thesis
      proof (cases "get_slot l (heap w) e")
        case (Inl x) with a SIfNotCall f lf show ?thesis by simp
      next
        case (Inr v)
        from get_slot_fresh[OF ch lf Inr] have v: "fresh_val n v" .
        from a SIfNotCall Inr obtain q w1 where
          c: "call_ctx k (call k) ctx i v w = Some (q, w1)"
          by (auto split: option.splits)
        from cc[OF c f cx v] have f1: "framed n h0 w1" by simp
        from a SIfNotCall Inr c have
          "exec k ctx s1 l w1 = Some (out, l', w') \<or> (w' = w1 \<and> l' = l)"
          by (auto split: sum.splits if_splits)
        with ex[OF _ f1 cx lf] f1 lf show ?thesis by blast
      qed
    next
      case (SSetUndef e)
      show ?thesis
      proof (cases "ref_slot l (heap w) e")
        case (Inl x) with a SSetUndef f lf show ?thesis by simp
      next
        case (Inr rf)
        from ref_slot_fresh[OF ch lf Inr] have rf: "ref_fresh n rf" .
        from a SSetUndef Inr have "store l w rf VUndef = (out, l', w')" by simp
        from store_framed[OF f lf rf _ this] show ?thesis by simp
      qed
    next
      case (SSetCall e i ar)
      show ?thesis
      proof (cases "ref_slot l (heap w) e")
        case (Inl x) with a SSetCall f lf show ?thesis by simp
      next
        case (Inr rf)
        from ref_slot_fresh[OF ch lf Inr] have rf: "ref_fresh n rf" .
        show ?thesis
        proof (cases "get_arg l (heap w) ar")
          case (Inl x) with a SSetCall Inr f lf show ?thesis by simp
        next
          case v: (Inr v)
          from get_arg_fresh[OF ch lf v] have fv: "fresh_val n v" .
          from a SSetCall Inr v obtain q w1 where
            c: "call_ctx k (call k) ctx i v w = Some (q, w1)"
            by (auto split: option.splits)
          from cc[OF c f cx fv] have f1: "framed n h0 w1" and q: "res_fresh n q" by simp_all
          show ?thesis
          proof (cases q)
            case (Inl x)
            with a SSetCall Inr v c f1 lf show ?thesis by simp
          next
            case y: (Inr y)
            with q have fy: "fresh_val n y" by simp
            from a SSetCall Inr v c y have "store l w1 rf y = (out, l', w')" by simp
            from store_framed[OF f1 lf rf fy this] show ?thesis .
          qed
        qed
      qed
    next
      case (SFor m e s1)
      with a have "forLoop k (exec k ctx s1) m e 0 l w = Some (out, l', w')" by simp
      from this f lf show ?thesis
        by (rule forLoop_framed) (rule ex, assumption, assumption, rule cx, assumption)
    next
      case (SForIn m e s1)
      show ?thesis
      proof (cases "get_slot l (heap w) e")
        case (Inl x) with a SForIn f lf show ?thesis by simp
      next
        case (Inr v)
        with a SForIn have
          "forInLoop (exec k ctx s1) m (forInKeys (heap w) v) l w = Some (out, l', w')" by simp
        from this f lf show ?thesis
          by (rule forInLoop_framed) (rule ex, assumption, assumption, rule cx, assumption)
      qed
    next
      case (SSwitch sc cases dflt)
      with a f lf have "(\<exists>b. exec k ctx b l w = Some (out, l', w')) \<or> (w' = w \<and> l' = l)"
        by (auto split: sum.splits option.splits)
      with ex[OF _ f cx lf] f lf show ?thesis by blast
    next
      case (SSeq s1 s2)
      from a SSeq obtain o1 l1 w1 where
        e1: "exec k ctx s1 l w = Some (o1, l1, w1)" by (auto split: option.splits)
      from ex[OF e1 f cx lf] have f1: "framed n h0 w1" "locals_fresh n l1" by simp_all
      from a SSeq e1 have "exec k ctx s2 l1 w1 = Some (out, l', w') \<or> (w' = w1 \<and> l' = l1)"
        by (auto split: outcome.splits)
      with ex[OF _ f1(1) cx f1(2)] f1 show ?thesis by blast
    next
      case (SVarErrSnap m i e)
      show ?thesis
      proof (cases "get_slot l (heap w) e")
        case (Inl x) with a SVarErrSnap f lf show ?thesis by simp
      next
        case (Inr v)
        from get_slot_fresh[OF ch lf Inr] have v: "fresh_val n v" .
        from a SVarErrSnap Inr obtain q w1 where
          c: "call_ctx k (call k) ctx i v w = Some (q, w1)"
          by (auto split: option.splits)
        from cc[OF c f cx v] have f1: "framed n h0 w1" and q: "res_fresh n q" by simp_all
        show ?thesis
        proof (cases q)
          case (Inl x)
          with a SVarErrSnap Inr c f1 lf show ?thesis by simp
        next
          case y: (Inr y)
          with q have "fresh_val n y" by simp
          with lf have "locals_fresh n (l\<lparr>l_snap := (l_snap l)(m := y)\<rparr>)"
            by (simp add: locals_fresh_snap)
          with a SVarErrSnap Inr c y f1 show ?thesis by auto
        qed
      qed
    next
      case (SDo m s1)
      from a SDo obtain o1 where
        e1: "exec k ctx s1 l w = Some (o1, l', w')"
        by (auto split: option.splits outcome.splits if_splits)
      from ex[OF e1 f cx lf] show ?thesis .
    next
      case (STryCatch s1)
      from a STryCatch obtain o1 l1 w1 where
        e1: "exec k ctx s1 l w = Some (o1, l1, w1)"
        by (auto split: option.splits)
      from a STryCatch e1 have
        l': "w' = w1 \<and> (l' = l1 \<or> (\<exists>x. l' = l1\<lparr>l_err := Some x\<rparr>))"
        by (cases o1) auto
      from ex[OF e1 f cx lf] l' show ?thesis by auto
    next
      case (SBreak m) with a f lf show ?thesis by simp
    next
      case SThrowErr with a f lf show ?thesis by simp
    qed }
  { case 2
    note a = this(1) and f = this(2) and fx = this(3)
    show ?case
    proof (cases "g < length (funs w)")
      case False with a f show ?thesis by auto
    next
      case True
      show ?thesis
      proof (cases "funs w ! g")
        case (Compiled body cx)
        from f True Compiled have cxf: "list_all cval_framed cx"
          by (auto simp: framed_def funs_framed_def dest: list_all_nth)
        from a True Compiled obtain out l1 where
          e1: "exec k cx body (init_locals x) w = Some (out, l1, w'')" and
          r: "r = (case out of Throw e \<Rightarrow> Inl e | _ \<Rightarrow> Inr (l_input l1))"
          by (auto split: option.splits outcome.splits)
        from ex[OF e1 f cxf locals_fresh_init[OF fx]] r show ?thesis
          by (auto simp: locals_fresh_def split: outcome.splits)
      next
        case (Trampoline d cell)
        let ?c = "case cell of Some c \<Rightarrow> Some c | None \<Rightarrow> cache w d"
        let ?w = "w\<lparr>funs := (funs w)[g := Trampoline d ?c]\<rparr>"
        have "list_all fn_framed ((funs w)[g := Trampoline d ?c])"
          using f by (simp add: framed_def funs_framed_def list_all_list_update)
        with f have s1: "framed n h0 ?w" by (simp add: framed_def funs_framed_def)
        show ?thesis
        proof (cases ?c)
          case None
          with a True Trampoline s1 show ?thesis by (auto simp: Let_def)
        next
          case (Some c)
          with a True Trampoline have "call k c x ?w = Some (r, w'')" by (auto simp: Let_def)
          from cl[OF this s1 fx] show ?thesis .
        qed
      qed
    qed }
qed







end
